theory Spec2Isabelle
  imports Complex_Main "HOL-Library.AList" "HOL-Library.Char_ord" "HOL-Library.List_Lexorder"
begin

section \<open>Data model\<close>

text \<open>
  The optimisation layer of kiro2cc: the request deduplicator (request\_deduplicator.go),
  the response cache (response\_cache.go), the predictive cache (predictive\_cache.go) and
  the context compressor (context\_compressor.go).

  Conventions of the embedding.
  \<^item> A Go \<open>string\<close> is a sequence of bytes: \<open>string\<close> here, one \<open>char\<close> per byte;
    \<open>len\<close> is \<open>length\<close>, \<open>s[:n]\<close> is \<open>take n s\<close>. Literals outside ASCII are written as
    their UTF-8 bytes.
  \<^item> \<open>time.Time\<close> and \<open>time.Duration\<close> are integers (nanoseconds); every operation that
    reads the clock takes the current time \<open>now\<close> as an argument.
  \<^item> A \<open>float64\<close> is represented by the rational number it denotes and float64
    arithmetic by exact arithmetic; the conversion \<open>int(float64(n) * r)\<close> is left to the
    runtime (field \<open>float_scale\<close> below).
  \<^item> A Go map iterated with \<open>range\<close> is an association list with distinct keys; the order
    of the list is the order of one iteration, so a statement about every list covers
    every iteration order. A map that is only looked up and updated is a partial function.
  \<^item> A nil-pointer dereference or a send on a closed channel is the result \<open>None\<close>.
  \<^item> An \<open>interface{}\<close> holding a response is \<open>response option\<close>, \<open>None\<close> for nil.
\<close>

type_synonym time = int
type_synonym response = string

text \<open>
  A content block as \<open>getMessageContent\<close> sees it after re-marshalling a JSON object into
  the struct \<open>ContentBlock\<close>; absent optional fields are nil pointers. The field \<open>Input\<close>
  is never read and left out.
\<close>

record ContentBlock =
  cb_Type :: string
  cb_Text :: "string option"
  cb_ToolUseId :: "string option"
  cb_Content :: "string option"
  cb_Name :: "string option"

text \<open>
  The dynamic type of \<open>Content any\<close>: a string, an array (each element either decodes
  into a \<open>ContentBlock\<close>, or is not an object or fails to decode: \<open>None\<close>), or any other
  JSON value.
\<close>

datatype content =
    StringContent string
  | ArrayContent "ContentBlock option list"
  | OtherContent

text \<open>
  \<open>AnthropicRequestMessage\<close>. The optimisation files call this type \<open>Message\<close>; its
  declaration is not part of the sources and it is taken to be the same struct.
\<close>

record Message =
  Role :: string
  Content :: content

record AnthropicSystemMessage =
  sm_Type :: string
  sm_Text :: string

type_synonym float64 = rat

datatype json =
    JNull
  | JBool bool
  | JNumber float64
  | JString string
  | JArray "json list"
  | JObject "(string \<times> json) list"

record AnthropicTool =
  tool_Name :: string
  tool_Description :: string
  tool_InputSchema :: "(string \<times> json) list"

record AnthropicRequest =
  Model :: string
  MaxTokens :: int
  Messages :: "Message list"
  System :: "AnthropicSystemMessage list"
  Tools :: "AnthropicTool list"
  Stream :: bool
  Temperature :: "float64 option"
  Metadata :: "(string \<times> json) list"

record MessageImportance =
  mi_Index :: nat
  mi_Score :: rat
  mi_Reason :: string
  mi_IsSystem :: bool
  mi_IsRecent :: bool
  mi_HasKeywords :: bool

subsection \<open>Library functions\<close>

text \<open>
  The values handed to \<open>json.Marshal\<close>: the anonymous key struct of the two caches
  (model, messages, max\_tokens), a whole request, the merge-key struct of the deduplicator
  (model, message\_count, last\_user\_msg), the pattern-key struct of the predictive cache
  (model, message\_count, has\_system, avg\_length) and a message slice.
\<close>

datatype json_arg =
    CacheKeyArg string "Message list" int
  | RequestArg AnthropicRequest
  | MergeKeyArg string nat string
  | PatternKeyArg string nat bool nat
  | MessagesArg "Message list"

text \<open>
  Functions of the Go standard library and runtime, taken as parameters:
  \<open>json.Marshal\<close> (\<open>None\<close> when it returns an error), the hexadecimal MD5 digest
  (\<open>hex.EncodeToString\<close> of \<open>md5.Sum\<close>, which is also what \<open>%x\<close> prints),
  \<open>strings.ToLower\<close>, \<open>strings.Fields\<close>, \<open>sort.Slice\<close> with the comparison
  \<open>Score[i] > Score[j]\<close> (not stable), and \<open>int(float64(n) * r)\<close>.
\<close>

record libs =
  json_Marshal :: "json_arg \<Rightarrow> string option"
  md5_hex :: "string \<Rightarrow> string"
  strings_ToLower :: "string \<Rightarrow> string"
  strings_Fields :: "string \<Rightarrow> string list"
  sort_Slice :: "MessageImportance list \<Rightarrow> MessageImportance list"
  float_scale :: "nat \<Rightarrow> rat \<Rightarrow> int"

subsection \<open>Helpers of package main\<close>

definition minInt :: "nat \<Rightarrow> nat \<Rightarrow> nat" where
  "minInt a b = (if a < b then a else b)"

definition absInt :: "int \<Rightarrow> int" where
  "absInt a = (if a < 0 then - a else a)"

section \<open>Request deduplicator: the similarity kernel\<close>

text \<open>
  \<open>levenshteinDistance\<close>. The matrix is a list of rows. \<open>make_matrix\<close> is the allocation
  with the two initialisation loops, \<open>lev_cell\<close> the body of the inner loop,
  \<open>lev_row\<close> the inner loop \<open>for j := 1; j <= len(s2); j++\<close> and \<open>lev_fill\<close> the outer
  loop \<open>for i := 1; i <= len(s1); i++\<close>. Every index the loops use is in range.
\<close>

definition make_matrix :: "nat \<Rightarrow> nat \<Rightarrow> nat list list" where
  "make_matrix n m =
     (let matrix = map (\<lambda>i. (replicate (m + 1) 0)[0 := i]) [0..<n + 1]
      in fold (\<lambda>j mx. mx[0 := (mx ! 0)[j := j]]) [0..<length (matrix ! 0)] matrix)"

definition lev_cell :: "string \<Rightarrow> string \<Rightarrow> nat \<Rightarrow> nat \<Rightarrow> nat list list \<Rightarrow> nat list list" where
  "lev_cell s1 s2 i j matrix =
     (let cost = (if s1 ! (i - 1) \<noteq> s2 ! (j - 1) then 1 else 0);
          deletion = matrix ! (i - 1) ! j + 1;
          insertion = matrix ! i ! (j - 1) + 1;
          substitution = matrix ! (i - 1) ! (j - 1) + cost
      in matrix[i := (matrix ! i)[j := minInt (minInt deletion insertion) substitution]])"

definition lev_row :: "string \<Rightarrow> string \<Rightarrow> nat \<Rightarrow> nat list list \<Rightarrow> nat list list" where
  "lev_row s1 s2 i matrix = fold (lev_cell s1 s2 i) [1..<Suc (length s2)] matrix"

definition lev_fill :: "string \<Rightarrow> string \<Rightarrow> nat list list \<Rightarrow> nat list list" where
  "lev_fill s1 s2 matrix = fold (lev_row s1 s2) [1..<Suc (length s1)] matrix"

definition levenshteinDistance :: "string \<Rightarrow> string \<Rightarrow> nat" where
  "levenshteinDistance s1 s2 =
     (if length s1 = 0 then length s2
      else if length s2 = 0 then length s1
      else
        let s1 = (if length s1 > 500 then take 500 s1 else s1);
            s2 = (if length s2 > 500 then take 500 s2 else s2);
            matrix = lev_fill s1 s2 (make_matrix (length s1) (length s2))
        in matrix ! length s1 ! length s2)"

text \<open>\<open>RequestDeduplicator.calculateTextSimilarity\<close>.\<close>

definition rd_calculateTextSimilarity :: "string \<Rightarrow> string \<Rightarrow> rat" where
  "rd_calculateTextSimilarity text1 text2 =
     (if text1 = text2 then 1
      else if text1 = [] \<or> text2 = [] then 0
      else
        let maxLen = max (length text1) (length text2)
        in if maxLen = 0 then 1
           else 1 - of_nat (levenshteinDistance text1 text2) / of_nat maxLen)"

subsection \<open>The specification's edit distance\<close>

text \<open>
  The specification's words: the classic dynamic-programming Levenshtein distance, as the
  recurrence over prefix lengths (\<open>levenshtein_rec a b i j\<close> is the distance between the
  first \<open>i\<close> units of \<open>a\<close> and the first \<open>j\<close> units of \<open>b\<close>); inputs longer than 500 units
  are truncated before comparison; and
  \<open>textSimilarity(a,b) = 1 - editDistance(a,b) / max(len(a),len(b))\<close>.
\<close>

fun levenshtein_rec :: "'a list \<Rightarrow> 'a list \<Rightarrow> nat \<Rightarrow> nat \<Rightarrow> nat" where
  "levenshtein_rec a b 0 j = j"
| "levenshtein_rec a b (Suc i) 0 = Suc i"
| "levenshtein_rec a b (Suc i) (Suc j) =
     min (min (levenshtein_rec a b i (Suc j) + 1) (levenshtein_rec a b (Suc i) j + 1))
         (levenshtein_rec a b i j + (if a ! i = b ! j then 0 else 1))"

definition levenshtein :: "'a list \<Rightarrow> 'a list \<Rightarrow> nat" where
  "levenshtein a b = levenshtein_rec a b (length a) (length b)"

definition editDistance_spec :: "string \<Rightarrow> string \<Rightarrow> nat" where
  "editDistance_spec a b = levenshtein (take 500 a) (take 500 b)"

text \<open>
  What the recurrence computes: \<open>edits a b n\<close> holds when \<open>b\<close> is obtained from \<open>a\<close> by an edit
  script of \<open>n\<close> insertions, deletions and substitutions of single units (the scripts are
  built from the right end, as the recurrence goes); \<open>levenshtein a b\<close> is the least such
  \<open>n\<close> (\<open>levenshtein_is_least\<close>).
\<close>

inductive edits :: "'a list \<Rightarrow> 'a list \<Rightarrow> nat \<Rightarrow> bool" where
  edits_Nil: "edits [] [] 0"
| edits_keep: "edits a b n \<Longrightarrow> edits (a @ [x]) (b @ [x]) n"
| edits_substitute: "edits a b n \<Longrightarrow> edits (a @ [x]) (b @ [y]) (Suc n)"
| edits_delete: "edits a b n \<Longrightarrow> edits (a @ [x]) b (Suc n)"
| edits_insert: "edits a b n \<Longrightarrow> edits a (b @ [y]) (Suc n)"

definition textSimilarity_spec :: "string \<Rightarrow> string \<Rightarrow> rat" where
  "textSimilarity_spec a b =
     1 - of_nat (editDistance_spec a b) / of_nat (max (length a) (length b))"

text \<open>
  The loop invariant of \<open>levenshteinDistance\<close>: the matrix has its dimensions, and the
  border and every cell the loops have passed (rows before \<open>i\<close>, and row \<open>i\<close> before
  column \<open>j\<close>) hold the recurrence's value.
\<close>

definition lev_inv :: "string \<Rightarrow> string \<Rightarrow> nat \<Rightarrow> nat \<Rightarrow> nat list list \<Rightarrow> bool" where
  "lev_inv s1 s2 i j mx \<longleftrightarrow>
     length mx = Suc (length s1) \<and>
     (\<forall>r \<le> length s1. length (mx ! r) = Suc (length s2)) \<and>
     (\<forall>r c. r \<le> length s1 \<and> c \<le> length s2 \<and> (r < i \<or> (r = i \<and> c < j) \<or> c = 0)
        \<longrightarrow> mx ! r ! c = levenshtein_rec s1 s2 r c)"

section \<open>Message content\<close>

text \<open>
  \<open>getMessageContent\<close> (main.go). In the array case every element that is an object and
  decodes into a \<open>ContentBlock\<close> contributes \<open>*cb.Content\<close> when its type is
  \<open>tool_result\<close> and \<open>*cb.Text\<close> when its type is \<open>text\<close>; the dereference of an absent
  field panics. \<open>block_texts\<close> is the loop over the elements, with the slice \<open>texts\<close>
  collected so far.
\<close>

definition default_content :: string where
  "default_content = ''answer for user qeustion''"

fun strings_Join :: "string list \<Rightarrow> string \<Rightarrow> string" where
  "strings_Join [] sep = []"
| "strings_Join [x] sep = x"
| "strings_Join (x # y # ys) sep = x @ sep @ strings_Join (y # ys) sep"

fun block_texts :: "ContentBlock option list \<Rightarrow> string list \<Rightarrow> string list option" where
  "block_texts [] texts = Some texts"
| "block_texts (None # bs) texts = block_texts bs texts"
| "block_texts (Some cb # bs) texts =
     (if cb_Type cb = ''tool_result'' then
        (case cb_Content cb of None \<Rightarrow> None | Some c \<Rightarrow> block_texts bs (texts @ [c]))
      else if cb_Type cb = ''text'' then
        (case cb_Text cb of None \<Rightarrow> None | Some t \<Rightarrow> block_texts bs (texts @ [t]))
      else block_texts bs texts)"

definition getMessageContent :: "content \<Rightarrow> string option" where
  "getMessageContent c =
     (case c of
        StringContent v \<Rightarrow> Some (if length v = 0 then default_content else v)
      | ArrayContent v \<Rightarrow>
          (case block_texts v [] of
             None \<Rightarrow> None
           | Some texts \<Rightarrow>
               Some (if length texts = 0 then default_content
                     else strings_Join texts [CHR 0x0A]))
      | OtherContent \<Rightarrow> Some default_content)"

text \<open>The loop \<open>total += len(getMessageContent(msg.Content))\<close> over a message slice.\<close>

fun total_length_from :: "Message list \<Rightarrow> nat \<Rightarrow> nat option" where
  "total_length_from [] tot = Some tot"
| "total_length_from (msg # msgs) tot =
     (case getMessageContent (Content msg) of
        None \<Rightarrow> None
      | Some c \<Rightarrow> total_length_from msgs (tot + length c))"

section \<open>Time\<close>

definition Second :: int where
  "Second = 1000000000"

definition Minute :: int where
  "Minute = 60 * Second"

definition Hour :: int where
  "Hour = 60 * Minute"

section \<open>Response cache\<close>

record CacheEntry =
  ce_Response :: "response option"
  ce_CreatedAt :: time
  ce_AccessCount :: int

record ResponseCache =
  rc_cache :: "(string \<times> CacheEntry) list"
  rc_maxSize :: int
  rc_ttl :: int

text \<open>The package-level instance \<open>responseCache\<close>.\<close>

definition responseCache :: ResponseCache where
  "responseCache = \<lparr>rc_cache = [], rc_maxSize = 1000, rc_ttl = 10 * Minute\<rparr>"

definition rc_generateCacheKey :: "libs \<Rightarrow> AnthropicRequest \<Rightarrow> string" where
  "rc_generateCacheKey L req =
     (if Stream req \<or> length (Messages req) = 0 then []
      else
        (case json_Marshal L (CacheKeyArg (Model req) (Messages req) (MaxTokens req)) of
           None \<Rightarrow> []
         | Some data \<Rightarrow> md5_hex L data))"

text \<open>
  \<open>evictLRU\<close>: \<open>evict_step\<close> is the body of the loop over the map, on the variables
  \<open>(oldestKey, oldestTime, minAccessCount)\<close>, which start as \<open>("", zero time, -1)\<close>; the
  zero time is never compared, since the first iteration takes the branch
  \<open>minAccessCount == -1\<close>.
\<close>

definition evict_step :: "string \<times> CacheEntry \<Rightarrow> string \<times> time \<times> int \<Rightarrow> string \<times> time \<times> int" where
  "evict_step kv st =
     (case kv of (key, entry) \<Rightarrow>
        (case st of (oldestKey, oldestTime, minAccessCount) \<Rightarrow>
           if minAccessCount = - 1 \<or> ce_AccessCount entry < minAccessCount \<or>
              (ce_AccessCount entry = minAccessCount \<and> ce_CreatedAt entry < oldestTime)
           then (key, ce_CreatedAt entry, ce_AccessCount entry)
           else st))"

definition rc_evictLRU :: "ResponseCache \<Rightarrow> ResponseCache" where
  "rc_evictLRU rc =
     (case fold evict_step (rc_cache rc) ([], 0, - 1) of
        (oldestKey, oldestTime, minAccessCount) \<Rightarrow>
          if oldestKey \<noteq> [] then rc\<lparr>rc_cache := AList.delete oldestKey (rc_cache rc)\<rparr>
          else rc)"

definition rc_Set :: "libs \<Rightarrow> ResponseCache \<Rightarrow> AnthropicRequest \<Rightarrow> response option \<Rightarrow> time \<Rightarrow> ResponseCache" where
  "rc_Set L rc req response now =
     (if Stream req then rc
      else
        let key = rc_generateCacheKey L req in
        if key = [] then rc
        else
          let rc1 = (if int (length (rc_cache rc)) \<ge> rc_maxSize rc then rc_evictLRU rc else rc)
          in rc1\<lparr>rc_cache :=
                 AList.update key
                   \<lparr>ce_Response = response, ce_CreatedAt = now, ce_AccessCount = 1\<rparr>
                   (rc_cache rc1)\<rparr>)"

text \<open>
  \<open>Get\<close> returns the pair \<open>(response, found)\<close> and the cache after the call. On an expired
  entry it reports a miss and starts \<open>deleteExpired\<close> in a goroutine, which is the separate
  step \<open>rc_deleteExpired\<close>.
\<close>

definition rc_Get :: "libs \<Rightarrow> ResponseCache \<Rightarrow> AnthropicRequest \<Rightarrow> time \<Rightarrow> (response option \<times> bool) \<times> ResponseCache" where
  "rc_Get L rc req now =
     (if Stream req then ((None, False), rc)
      else
        let key = rc_generateCacheKey L req in
        if key = [] then ((None, False), rc)
        else
          (case map_of (rc_cache rc) key of
             None \<Rightarrow> ((None, False), rc)
           | Some entry \<Rightarrow>
               if now - ce_CreatedAt entry > rc_ttl rc then ((None, False), rc)
               else
                 ((ce_Response entry, True),
                  rc\<lparr>rc_cache :=
                       AList.update key (entry\<lparr>ce_AccessCount := ce_AccessCount entry + 1\<rparr>)
                         (rc_cache rc)\<rparr>)))"

definition rc_deleteExpired :: "ResponseCache \<Rightarrow> string \<Rightarrow> ResponseCache" where
  "rc_deleteExpired rc key = rc\<lparr>rc_cache := AList.delete key (rc_cache rc)\<rparr>"

text \<open>
  What every cache built by \<open>Set\<close> and \<open>Get\<close> from the empty map satisfies: the keys are
  distinct (it is a map) and not empty (\<open>Set\<close> stores no empty key), and every access
  count is at least 1.
\<close>

definition rc_wf :: "ResponseCache \<Rightarrow> bool" where
  "rc_wf rc \<longleftrightarrow>
     distinct (map fst (rc_cache rc)) \<and>
     list_all (\<lambda>kv. fst kv \<noteq> [] \<and> 1 \<le> ce_AccessCount (snd kv)) (rc_cache rc)"

text \<open>
  The eviction order of the specification: lowest access count first, ties broken by the
  oldest creation time.
\<close>

definition evicts_before :: "CacheEntry \<Rightarrow> CacheEntry \<Rightarrow> bool" where
  "evicts_before e e' \<longleftrightarrow>
     ce_AccessCount e < ce_AccessCount e' \<or>
     (ce_AccessCount e = ce_AccessCount e' \<and> ce_CreatedAt e \<le> ce_CreatedAt e')"

section \<open>Predictive cache\<close>

record PredictiveCacheEntry =
  pe_Response :: "response option"
  pe_CreatedAt :: time
  pe_AccessCount :: int
  pe_LastAccess :: time
  pe_Confidence :: rat
  pe_IsPrefetch :: bool

record RequestPattern =
  rp_BaseRequest :: AnthropicRequest
  rp_Variations :: "AnthropicRequest list"
  rp_Frequency :: int
  rp_LastSeen :: time
  rp_NextPredicted :: time
  rp_SuccessRate :: rat

text \<open>
  The cache and the learned patterns. The prefetch queue and its worker, which run in
  goroutines of their own, are not part of the model.
\<close>

record PredictiveCache =
  pc_cache :: "(string \<times> PredictiveCacheEntry) list"
  pc_patterns :: "(string \<times> RequestPattern) list"
  pc_maxPrefetch :: int
  pc_similarityThreshold :: rat

text \<open>The package-level instance \<open>predictiveCache\<close>.\<close>

definition predictiveCache :: PredictiveCache where
  "predictiveCache =
     \<lparr>pc_cache = [], pc_patterns = [], pc_maxPrefetch = 10, pc_similarityThreshold = 8 / 10\<rparr>"

definition pc_generateKey :: "libs \<Rightarrow> AnthropicRequest \<Rightarrow> string" where
  "pc_generateKey L req =
     md5_hex L
       (case json_Marshal L (CacheKeyArg (Model req) (Messages req) (MaxTokens req)) of
          None \<Rightarrow> []
        | Some data \<Rightarrow> data)"

definition pc_isExpired :: "PredictiveCacheEntry \<Rightarrow> time \<Rightarrow> bool" where
  "pc_isExpired entry now =
     (let ttl = (if pe_IsPrefetch entry then 30 * Minute else 10 * Minute)
      in now - pe_CreatedAt entry > ttl)"

definition pc_parseKeyToRequest :: "string \<Rightarrow> AnthropicRequest option" where
  "pc_parseKeyToRequest key = None"

text \<open>
  \<open>PredictiveCache.calculateTextSimilarity\<close>: the two maps \<open>set1\<close> and \<open>set2\<close> are the
  lists of distinct words.
\<close>

definition pc_calculateTextSimilarity :: "libs \<Rightarrow> string \<Rightarrow> string \<Rightarrow> rat" where
  "pc_calculateTextSimilarity L text1 text2 =
     (let words1 = strings_Fields L text1;
          words2 = strings_Fields L text2
      in if length words1 = 0 \<and> length words2 = 0 then 1
         else if length words1 = 0 \<or> length words2 = 0 then 0
         else
           let set1 = remdups words1;
               set2 = remdups words2;
               n_intersection = length (filter (\<lambda>word. word \<in> set set1) set2);
               n_union = length set1 + length (filter (\<lambda>word. word \<notin> set set1) set2)
           in if n_union = 0 then 0 else of_nat n_intersection / of_nat n_union)"

fun pc_extract_texts :: "libs \<Rightarrow> Message list \<Rightarrow> string list \<Rightarrow> string list option" where
  "pc_extract_texts L [] texts = Some texts"
| "pc_extract_texts L (msg # msgs) texts =
     (case getMessageContent (Content msg) of
        None \<Rightarrow> None
      | Some content \<Rightarrow>
          if content \<noteq> [] then pc_extract_texts L msgs (texts @ [strings_ToLower L content])
          else pc_extract_texts L msgs texts)"

definition pc_extractTextFromMessages :: "libs \<Rightarrow> Message list \<Rightarrow> string option" where
  "pc_extractTextFromMessages L msgs =
     (case pc_extract_texts L msgs [] of
        None \<Rightarrow> None
      | Some texts \<Rightarrow> Some (strings_Join texts '' ''))"

definition pc_calculateContentSimilarity :: "libs \<Rightarrow> Message list \<Rightarrow> Message list \<Rightarrow> rat option" where
  "pc_calculateContentSimilarity L msgs1 msgs2 =
     (if length msgs1 = 0 \<and> length msgs2 = 0 then Some 1
      else if length msgs1 = 0 \<or> length msgs2 = 0 then Some 0
      else
        (case pc_extractTextFromMessages L msgs1 of
           None \<Rightarrow> None
         | Some text1 \<Rightarrow>
             (case pc_extractTextFromMessages L msgs2 of
                None \<Rightarrow> None
              | Some text2 \<Rightarrow> Some (pc_calculateTextSimilarity L text1 text2))))"

definition pc_calculateSimilarity :: "libs \<Rightarrow> AnthropicRequest \<Rightarrow> AnthropicRequest \<Rightarrow> rat option" where
  "pc_calculateSimilarity L req1 req2 =
     (let score0 = (if Model req1 = Model req2 then 3 / 10 else 0);
          score1 = score0 + (if length (Messages req1) = length (Messages req2) then 2 / 10 else 0);
          factors = 3 / 10 + 2 / 10 + 5 / 10
      in case pc_calculateContentSimilarity L (Messages req1) (Messages req2) of
           None \<Rightarrow> None
         | Some contentSimilarity \<Rightarrow> Some ((score1 + contentSimilarity * (5 / 10)) / factors))"

text \<open>
  \<open>findSimilarRequest\<close>: the loop over the cache, on the variables
  \<open>(bestEntry, bestSimilarity)\<close>; the pointer \<open>bestEntry\<close> is the key of the entry it
  points to, \<open>None\<close> for nil.
\<close>

fun pc_find_loop :: "libs \<Rightarrow> rat \<Rightarrow> AnthropicRequest \<Rightarrow> time \<Rightarrow> (string \<times> PredictiveCacheEntry) list
    \<Rightarrow> string option \<times> rat \<Rightarrow> (string option \<times> rat) option" where
  "pc_find_loop L threshold req now [] best = Some best"
| "pc_find_loop L threshold req now ((cachedKey, entry) # rest) best =
     (if pc_isExpired entry now then pc_find_loop L threshold req now rest best
      else
        (case pc_parseKeyToRequest cachedKey of
           None \<Rightarrow> pc_find_loop L threshold req now rest best
         | Some cachedReq \<Rightarrow>
             (case pc_calculateSimilarity L req cachedReq of
                None \<Rightarrow> None
              | Some similarity \<Rightarrow>
                  if similarity > snd best \<and> similarity \<ge> threshold
                  then pc_find_loop L threshold req now rest (Some cachedKey, similarity)
                  else pc_find_loop L threshold req now rest best)))"

definition pc_findSimilarRequest :: "libs \<Rightarrow> PredictiveCache \<Rightarrow> AnthropicRequest \<Rightarrow> time
    \<Rightarrow> (string option \<times> rat) option" where
  "pc_findSimilarRequest L pc req now =
     pc_find_loop L (pc_similarityThreshold pc) req now (pc_cache pc) (None, 0)"

definition pc_touch :: "PredictiveCache \<Rightarrow> string \<Rightarrow> PredictiveCacheEntry \<Rightarrow> time \<Rightarrow> PredictiveCache" where
  "pc_touch pc key entry now =
     pc\<lparr>pc_cache :=
          AList.update key
            (entry\<lparr>pe_AccessCount := pe_AccessCount entry + 1, pe_LastAccess := now\<rparr>)
            (pc_cache pc)\<rparr>"

text \<open>
  \<open>PredictiveCache.Get\<close> returns \<open>(response, found, confidence)\<close> and the cache after the
  call (\<open>pc_touch\<close> is the update of the matched entry through its pointer).
\<close>

definition pc_Get_fuzzy :: "libs \<Rightarrow> PredictiveCache \<Rightarrow> AnthropicRequest \<Rightarrow> time
    \<Rightarrow> ((response option \<times> bool \<times> rat) \<times> PredictiveCache) option" where
  "pc_Get_fuzzy L pc req now =
     (case pc_findSimilarRequest L pc req now of
        None \<Rightarrow> None
      | Some (bestMatch, similarity) \<Rightarrow>
          (case bestMatch of
             None \<Rightarrow> Some ((None, False, 0), pc)
           | Some k \<Rightarrow>
               (case map_of (pc_cache pc) k of
                  None \<Rightarrow> Some ((None, False, 0), pc)
                | Some entry \<Rightarrow>
                    if similarity \<ge> pc_similarityThreshold pc
                    then Some ((pe_Response entry, True, similarity), pc_touch pc k entry now)
                    else Some ((None, False, 0), pc))))"

definition pc_Get :: "libs \<Rightarrow> PredictiveCache \<Rightarrow> AnthropicRequest \<Rightarrow> time
    \<Rightarrow> ((response option \<times> bool \<times> rat) \<times> PredictiveCache) option" where
  "pc_Get L pc req now =
     (let key = pc_generateKey L req in
      case map_of (pc_cache pc) key of
        None \<Rightarrow> pc_Get_fuzzy L pc req now
      | Some entry \<Rightarrow>
          if \<not> pc_isExpired entry now
          then Some ((pe_Response entry, True, 1), pc_touch pc key entry now)
          else pc_Get_fuzzy L pc req now)"

definition pc_generatePatternKey :: "libs \<Rightarrow> AnthropicRequest \<Rightarrow> string option" where
  "pc_generatePatternKey L req =
     (let n = length (Messages req);
          hasSystem = (n > 0 \<and> Role (Messages req ! 0) = ''system'')
      in case total_length_from (Messages req) 0 of
           None \<Rightarrow> None
         | Some totalLength \<Rightarrow>
             let avgLength = (if n > 0 then totalLength div n else 0);
                 data = (case json_Marshal L (PatternKeyArg (Model req) n hasSystem avgLength) of
                           None \<Rightarrow> [] | Some d \<Rightarrow> d)
             in Some (take 16 (md5_hex L data)))"

definition pc_learnPattern :: "libs \<Rightarrow> PredictiveCache \<Rightarrow> AnthropicRequest \<Rightarrow> time \<Rightarrow> PredictiveCache option" where
  "pc_learnPattern L pc req now =
     (case pc_generatePatternKey L req of
        None \<Rightarrow> None
      | Some patternKey \<Rightarrow>
          (case map_of (pc_patterns pc) patternKey of
             Some pattern \<Rightarrow>
               let vs = rp_Variations pattern @ [req];
                   vs' = (if length vs > 10 then drop 1 vs else vs)
               in Some (pc\<lparr>pc_patterns :=
                    AList.update patternKey
                      (pattern\<lparr>rp_Frequency := rp_Frequency pattern + 1, rp_LastSeen := now,
                               rp_Variations := vs'\<rparr>)
                      (pc_patterns pc)\<rparr>)
           | None \<Rightarrow>
               Some (pc\<lparr>pc_patterns :=
                    AList.update patternKey
                      \<lparr>rp_BaseRequest = req, rp_Variations = [req], rp_Frequency = 1,
                       rp_LastSeen = now, rp_NextPredicted = now + Hour, rp_SuccessRate = 1\<rparr>
                      (pc_patterns pc)\<rparr>)))"

text \<open>
  \<open>PredictiveCache.Set\<close>: the store and \<open>learnPattern\<close>; the prediction pass it starts in
  a goroutine only feeds the prefetch queue.
\<close>

definition pc_Set :: "libs \<Rightarrow> PredictiveCache \<Rightarrow> AnthropicRequest \<Rightarrow> response option \<Rightarrow> time
    \<Rightarrow> PredictiveCache option" where
  "pc_Set L pc req response now =
     (let key = pc_generateKey L req;
          pc1 = pc\<lparr>pc_cache :=
                  AList.update key
                    \<lparr>pe_Response = response, pe_CreatedAt = now, pe_AccessCount = 1,
                     pe_LastAccess = now, pe_Confidence = 1, pe_IsPrefetch = False\<rparr>
                    (pc_cache pc)\<rparr>
      in pc_learnPattern L pc1 req now)"

section \<open>Context compressor\<close>

record CompressedContext =
  cx_OriginalMessages :: "Message list"
  cx_CompressedMessages :: "Message list"
  cx_Summary :: string
  cx_CompressionRatio :: rat
  cx_CreatedAt :: time
  cx_UsageCount :: int

record ContextCompressor =
  compressionCache :: "(string \<times> CompressedContext) list"
  summaryCache :: "(string \<times> string) list"
  maxContextLength :: int
  compressionRatio :: rat

text \<open>The package-level instance \<open>contextCompressor\<close>.\<close>

definition contextCompressor :: ContextCompressor where
  "contextCompressor =
     \<lparr>compressionCache = [], summaryCache = [], maxContextLength = 4000,
      compressionRatio = 6 / 10\<rparr>"

definition cc_calculateTotalLength :: "Message list \<Rightarrow> nat option" where
  "cc_calculateTotalLength messages = total_length_from messages 0"


definition cc_generateSummaryKey :: "libs \<Rightarrow> Message list \<Rightarrow> string" where
  "cc_generateSummaryKey L messages =
     ''summary_'' @ md5_hex L (case json_Marshal L (MessagesArg messages) of
                                 None \<Rightarrow> [] | Some data \<Rightarrow> data)"

text \<open>\<open>strings.HasPrefix\<close> and \<open>strings.Contains\<close>, on bytes.\<close>

fun strings_HasPrefix :: "string \<Rightarrow> string \<Rightarrow> bool" where
  "strings_HasPrefix s [] = True"
| "strings_HasPrefix [] (p # ps) = False"
| "strings_HasPrefix (c # cs) (p # ps) = (c = p \<and> strings_HasPrefix cs ps)"

fun strings_Contains :: "string \<Rightarrow> string \<Rightarrow> bool" where
  "strings_Contains [] substr = (substr = [])"
| "strings_Contains (c # cs) substr =
     (strings_HasPrefix (c # cs) substr \<or> strings_Contains cs substr)"

text \<open>The decimal digits that \<open>%d\<close> prints for a length.\<close>

definition digit_char :: "nat \<Rightarrow> char" where
  "digit_char d = char_of (48 + d)"

fun itoa :: "nat \<Rightarrow> string" where
  "itoa n = (if n < 10 then [digit_char n] else itoa (n div 10) @ [digit_char (n mod 10)])"

declare itoa.simps [simp del]

definition importantKeywords :: "string list" where
  "importantKeywords =
     [''error'', [CHR 0xE9, CHR 0x94, CHR 0x99, CHR 0xE8, CHR 0xAF, CHR 0xAF],
      [CHR 0xE9, CHR 0x97, CHR 0xAE, CHR 0xE9, CHR 0xA2, CHR 0x98], ''help'',
      [CHR 0xE5, CHR 0xB8, CHR 0xAE, CHR 0xE5, CHR 0x8A, CHR 0xA9], ''how'', ''what'',
      ''why'', ''when'', ''where'',
      [CHR 0xE5, CHR 0xA6, CHR 0x82, CHR 0xE4, CHR 0xBD, CHR 0x95],
      [CHR 0xE4, CHR 0xBB, CHR 0x80, CHR 0xE4, CHR 0xB9, CHR 0x88],
      [CHR 0xE4, CHR 0xB8, CHR 0xBA, CHR 0xE4, CHR 0xBB, CHR 0x80, CHR 0xE4, CHR 0xB9, CHR 0x88],
      [CHR 0xE6, CHR 0x80, CHR 0x8E, CHR 0xE4, CHR 0xB9, CHR 0x88],
      [CHR 0xE5, CHR 0x93, CHR 0xAA, CHR 0xE9, CHR 0x87, CHR 0x8C], ''code'',
      [CHR 0xE4, CHR 0xBB, CHR 0xA3, CHR 0xE7, CHR 0xA0, CHR 0x81], ''function'',
      [CHR 0xE5, CHR 0x87, CHR 0xBD, CHR 0xE6, CHR 0x95, CHR 0xB0], ''bug'', ''fix'',
      [CHR 0xE4, CHR 0xBF, CHR 0xAE, CHR 0xE5, CHR 0xA4, CHR 0x8D],
      [CHR 0xE8, CHR 0xA7, CHR 0xA3, CHR 0xE5, CHR 0x86, CHR 0xB3]]"

definition cc_hasImportantKeywords :: "libs \<Rightarrow> string \<Rightarrow> bool" where
  "cc_hasImportantKeywords L content =
     (let contentLower = strings_ToLower L content
      in list_ex (\<lambda>keyword. strings_Contains contentLower keyword) importantKeywords)"

definition stopWords :: "string list" where
  "stopWords =
     [''the'', ''and'', ''or'', ''but'', ''in'', ''on'', ''at'', ''to'', ''for'', ''of'',
      ''with'', ''by'', [CHR 0xE6, CHR 0x98, CHR 0xAF], [CHR 0xE7, CHR 0x9A, CHR 0x84],
      [CHR 0xE4, CHR 0xBA, CHR 0x86], [CHR 0xE5, CHR 0x9C, CHR 0xA8],
      [CHR 0xE6, CHR 0x9C, CHR 0x89], [CHR 0xE6, CHR 0x88, CHR 0x91],
      [CHR 0xE4, CHR 0xBD, CHR 0xA0], [CHR 0xE4, CHR 0xBB, CHR 0x96]]"

definition cc_isImportantWord :: "string \<Rightarrow> bool" where
  "cc_isImportantWord word = (word \<notin> set stopWords)"

text \<open>
  \<open>calculateMessageImportance\<close>: \<open>importance_of\<close> is the body of the loop for the message
  at index \<open>i\<close> of \<open>n\<close> messages; the scores are sums of 10, 5, 3, 2, 1.5 and 1, which
  float64 adds exactly.
\<close>

definition importance_of :: "libs \<Rightarrow> nat \<Rightarrow> nat \<Rightarrow> Message \<Rightarrow> MessageImportance option" where
  "importance_of L n i msg =
     (let score0 = (if Role msg = ''system'' then 10 else 0);
          reasons0 = (if Role msg = ''system'' then [''system_message''] else []);
          recentThreshold = int n - 3;
          score1 = (if int i \<ge> recentThreshold
                    then score0 + 5 * of_int (int i - recentThreshold + 1) else score0);
          reasons1 = (if int i \<ge> recentThreshold then reasons0 @ [''recent_message''] else reasons0)
      in case getMessageContent (Content msg) of
           None \<Rightarrow> None
         | Some content \<Rightarrow>
             let score2 = (if cc_hasImportantKeywords L content then score1 + 3 else score1);
                 reasons2 = (if cc_hasImportantKeywords L content
                             then reasons1 @ [''has_keywords''] else reasons1);
                 score3 = (if length content > 200 then score2 + 2 else score2);
                 reasons3 = (if length content > 200 then reasons2 @ [''long_message''] else reasons2);
                 question = (strings_Contains content ''?'' \<or>
                             strings_Contains content [CHR 0xEF, CHR 0xBC, CHR 0x9F]);
                 score4 = (if question then score3 + 3 / 2 else score3);
                 reasons4 = (if question then reasons3 @ [''question''] else reasons3);
                 score5 = (if Role msg = ''user'' then score4 + 1 else score4);
                 reasons5 = (if Role msg = ''user'' then reasons4 @ [''user_message''] else reasons4)
             in Some \<lparr>mi_Index = i, mi_Score = score5,
                      mi_Reason = strings_Join reasons5 '','',
                      mi_IsSystem = (Role msg = ''system''),
                      mi_IsRecent = (int i \<ge> recentThreshold),
                      mi_HasKeywords = cc_hasImportantKeywords L content\<rparr>)"

fun importance_loop :: "libs \<Rightarrow> nat \<Rightarrow> nat \<Rightarrow> Message list \<Rightarrow> MessageImportance list option" where
  "importance_loop L n i [] = Some []"
| "importance_loop L n i (msg # msgs) =
     (case importance_of L n i msg of
        None \<Rightarrow> None
      | Some imp \<Rightarrow>
          (case importance_loop L n (Suc i) msgs of
             None \<Rightarrow> None
           | Some imps \<Rightarrow> Some (imp # imps)))"

definition cc_calculateMessageImportance :: "libs \<Rightarrow> Message list \<Rightarrow> MessageImportance list option" where
  "cc_calculateMessageImportance L messages = importance_loop L (length messages) 0 messages"

text \<open>
  \<open>selectImportantMessages\<close>: \<open>select_loop\<close> is the loop over the sorted scores, on the
  key set of the map \<open>selected\<close> and \<open>currentLength\<close>; an index outside the slice panics.
  The keys are then collected and sorted by \<open>sort.Ints\<close>.
\<close>

fun select_loop :: "Message list \<Rightarrow> int \<Rightarrow> MessageImportance list \<Rightarrow> nat list \<times> int
    \<Rightarrow> (nat list \<times> int) option" where
  "select_loop messages targetLength [] st = Some st"
| "select_loop messages targetLength (imp # imps) (selected, currentLength) =
     (if mi_Index imp < length messages then
        (case getMessageContent (Content (messages ! mi_Index imp)) of
           None \<Rightarrow> None
         | Some content \<Rightarrow>
             let msgLength = int (length content) in
             if currentLength + msgLength \<le> targetLength
             then select_loop messages targetLength imps
                    (List.insert (mi_Index imp) selected, currentLength + msgLength)
             else select_loop messages targetLength imps (selected, currentLength))
      else None)"

definition cc_selectImportantMessages :: "Message list \<Rightarrow> MessageImportance list \<Rightarrow> int \<Rightarrow> nat list option" where
  "cc_selectImportantMessages messages importance targetLength =
     (case select_loop messages targetLength importance ([], 0) of
        None \<Rightarrow> None
      | Some (selected, currentLength) \<Rightarrow> Some (sort selected))"

text \<open>
  \<open>generateSimpleSummary\<close>: \<open>count_word\<close> is \<open>topics[word]++\<close> under its guard,
  \<open>summary_scan\<close> the loop over the messages on \<open>(topics, totalLength)\<close>. The topics that
  occur at least twice are collected in the order of the map and sorted by
  \<open>sort.Strings\<close>, the bytewise lexicographic order.
\<close>

definition count_word :: "string \<Rightarrow> (string \<times> nat) list \<Rightarrow> (string \<times> nat) list" where
  "count_word word topics =
     (if length word > 3 \<and> cc_isImportantWord word
      then AList.update word (case map_of topics word of None \<Rightarrow> 1 | Some c \<Rightarrow> c + 1) topics
      else topics)"

fun summary_scan :: "libs \<Rightarrow> Message list \<Rightarrow> (string \<times> nat) list \<times> nat
    \<Rightarrow> ((string \<times> nat) list \<times> nat) option" where
  "summary_scan L [] st = Some st"
| "summary_scan L (msg # msgs) (topics, totalLength) =
     (case getMessageContent (Content msg) of
        None \<Rightarrow> None
      | Some content \<Rightarrow>
          let words = strings_Fields L (strings_ToLower L content)
          in summary_scan L msgs (fold count_word words topics, totalLength + length content))"

definition skipped_open :: string where
  "skipped_open = [CHR 0xE8, CHR 0xB7, CHR 0xB3, CHR 0xE8, CHR 0xBF, CHR 0x87, CHR 0xE4, CHR 0xBA, CHR 0x86]"

definition skipped_plain_close :: string where
  "skipped_plain_close = [CHR 0xE6, CHR 0x9D, CHR 0xA1, CHR 0xE6, CHR 0xB6, CHR 0x88, CHR 0xE6, CHR 0x81, CHR 0xAF]"

definition skipped_about :: string where
  "skipped_about = [CHR 0xE6, CHR 0x9D, CHR 0xA1, CHR 0xE5, CHR 0x85, CHR 0xB3, CHR 0xE4, CHR 0xBA, CHR 0x8E]"

definition skipped_about_close :: string where
  "skipped_about_close = [CHR 0xE7, CHR 0x9A, CHR 0x84, CHR 0xE6, CHR 0xB6, CHR 0x88, CHR 0xE6, CHR 0x81, CHR 0xAF]"

definition topic_separator :: string where
  "topic_separator = [CHR 0xE3, CHR 0x80, CHR 0x81]"

definition cc_generateSimpleSummary :: "libs \<Rightarrow> Message list \<Rightarrow> string option" where
  "cc_generateSimpleSummary L messages =
     (if length messages = 0 then Some []
      else
        (case summary_scan L messages ([], 0) of
           None \<Rightarrow> None
         | Some (topics, totalLength) \<Rightarrow>
             let topTopics = map fst (filter (\<lambda>tc. snd tc \<ge> 2) topics) in
             if length topTopics = 0
             then Some (skipped_open @ itoa (length messages) @ skipped_plain_close)
             else
               let sorted = sort topTopics;
                   top = (if length sorted > 3 then take 3 sorted else sorted)
               in Some (skipped_open @ itoa (length messages) @ skipped_about
                        @ strings_Join top topic_separator @ skipped_about_close)))"

definition cc_createSummary :: "libs \<Rightarrow> ContextCompressor \<Rightarrow> Message list
    \<Rightarrow> (string \<times> ContextCompressor) option" where
  "cc_createSummary L cc messages =
     (if length messages = 0 then Some ([], cc)
      else
        let summaryKey = cc_generateSummaryKey L messages in
        (case map_of (summaryCache cc) summaryKey of
           Some summary \<Rightarrow> Some (summary, cc)
         | None \<Rightarrow>
             (case cc_generateSimpleSummary L messages of
                None \<Rightarrow> None
              | Some summary \<Rightarrow>
                  Some (summary,
                        cc\<lparr>summaryCache := AList.update summaryKey summary (summaryCache cc)\<rparr>))))"

text \<open>
  \<open>ensureEssentialMessages\<close>. \<open>essential_selected\<close> is the map \<open>selected\<close> after the three
  marking steps, read at an index \<open>i\<close>; \<open>slice\<close> is \<open>messages[a:b]\<close>; \<open>summary_message\<close> is
  the placeholder; \<open>ensure_loop\<close> is the final loop over the indices, on
  \<open>(finalMessages, lastIncluded)\<close> and the compressor, whose summary cache
  \<open>createSummary\<close> updates.
\<close>

definition essential_selected :: "Message list \<Rightarrow> nat list \<Rightarrow> nat \<Rightarrow> bool" where
  "essential_selected messages selectedIndices i \<longleftrightarrow>
     i \<in> set selectedIndices \<or>
     (i < length messages \<and> Role (messages ! i) = ''system'') \<or>
     (length messages \<ge> 2 \<and> (i = length messages - 1 \<or> i = length messages - 2))"

definition slice :: "'a list \<Rightarrow> nat \<Rightarrow> nat \<Rightarrow> 'a list" where
  "slice xs a b = take (b - a) (drop a xs)"

definition summary_message :: "string \<Rightarrow> Message" where
  "summary_message summary =
     \<lparr>Role = ''system'', Content = StringContent ((''['' @ [CHR 0xE6, CHR 0x91, CHR 0x98, CHR 0xE8, CHR 0xA6, CHR 0x81] @ '': '') @ summary @ '']'')\<rparr>"

fun ensure_loop :: "libs \<Rightarrow> Message list \<Rightarrow> (nat \<Rightarrow> bool) \<Rightarrow> nat list
    \<Rightarrow> Message list \<times> int \<times> ContextCompressor
    \<Rightarrow> (Message list \<times> int \<times> ContextCompressor) option" where
  "ensure_loop L messages selected [] st = Some st"
| "ensure_loop L messages selected (i # rest) (finalMessages, lastIncluded, cc) =
     (if selected i then
        (if int i > lastIncluded + 1 then
           (case cc_createSummary L cc (slice messages (nat (lastIncluded + 1)) i) of
              None \<Rightarrow> None
            | Some (summary, cc1) \<Rightarrow>
                ensure_loop L messages selected rest
                  ((if summary \<noteq> [] then finalMessages @ [summary_message summary]
                    else finalMessages) @ [messages ! i], int i, cc1))
         else ensure_loop L messages selected rest (finalMessages @ [messages ! i], int i, cc))
      else ensure_loop L messages selected rest (finalMessages, lastIncluded, cc))"

definition cc_ensureEssentialMessages :: "libs \<Rightarrow> ContextCompressor \<Rightarrow> Message list \<Rightarrow> nat list
    \<Rightarrow> (Message list \<times> ContextCompressor) option" where
  "cc_ensureEssentialMessages L cc messages selectedIndices =
     (case ensure_loop L messages (essential_selected messages selectedIndices)
             [0..<length messages] ([], - 1, cc) of
        None \<Rightarrow> None
      | Some (finalMessages, lastIncluded, cc') \<Rightarrow> Some (finalMessages, cc'))"

definition cc_performCompression :: "libs \<Rightarrow> ContextCompressor \<Rightarrow> Message list
    \<Rightarrow> (Message list \<times> ContextCompressor) option" where
  "cc_performCompression L cc messages =
     (if length messages \<le> 2 then Some (messages, cc)
      else
        (case cc_calculateMessageImportance L messages of
           None \<Rightarrow> None
         | Some importance \<Rightarrow>
             let sorted = sort_Slice L importance in
             (case cc_calculateTotalLength messages of
                None \<Rightarrow> None
              | Some totalLength \<Rightarrow>
                  let targetLength = float_scale L totalLength (compressionRatio cc) in
                  (case cc_selectImportantMessages messages sorted targetLength of
                     None \<Rightarrow> None
                   | Some selectedIndices \<Rightarrow>
                       cc_ensureEssentialMessages L cc messages selectedIndices))))"


section \<open>Request deduplicator\<close>

record DedupeResponse =
  dr_Response :: "response option"
  dr_Error :: "string option"
  dr_FromCache :: bool
  dr_Merged :: bool

text \<open>
  A channel made by \<open>make(chan DedupeResponse, 1)\<close>: the values sent on it so far and
  whether it has been closed. The code closes a channel right after its only send, so a
  send never finds the buffer full; a send on a closed channel panics.
\<close>

record chan =
  ch_sent :: "DedupeResponse list"
  ch_closed :: bool

text \<open>
  The channels \<open>ResponseCh\<close> and \<open>Subscribers\<close> are indices into the list of the channels
  made so far.
\<close>

record ActiveRequest =
  ar_Request :: AnthropicRequest
  ar_ResponseCh :: nat
  ar_Subscribers :: "nat list"
  ar_StartTime :: time
  ar_RequestHash :: string

record RecentRequest =
  rr_Request :: AnthropicRequest
  rr_Response :: "response option"
  rr_Timestamp :: time
  rr_Hash :: string

record MergeableGroup =
  mg_BaseRequest :: AnthropicRequest
  mg_Variations :: "AnthropicRequest list"
  mg_LastMerged :: time
  mg_MergeCount :: int
  mg_ResponseCache :: "response option"

text \<open>
  The deduplicator with the part of the heap it shares with its goroutines: the map
  \<open>activeRequests\<close> holds pointers, which are indices into \<open>active_heap\<close>, the
  \<open>ActiveRequest\<close> objects allocated so far; \<open>executeRequest\<close> holds such a pointer too.
\<close>

record RequestDeduplicator =
  activeRequests :: "(string \<times> nat) list"
  recentRequests :: "(string \<times> RecentRequest) list"
  mergeableGroups :: "(string \<times> MergeableGroup) list"
  active_heap :: "ActiveRequest list"
  channels :: "chan list"

text \<open>The package-level instance \<open>requestDeduplicator\<close>.\<close>

definition requestDeduplicator :: RequestDeduplicator where
  "requestDeduplicator =
     \<lparr>activeRequests = [], recentRequests = [], mergeableGroups = [], active_heap = [],
      channels = []\<rparr>"

definition rd_generateRequestHash :: "libs \<Rightarrow> AnthropicRequest \<Rightarrow> string" where
  "rd_generateRequestHash L req =
     md5_hex L (case json_Marshal L (RequestArg req) of None \<Rightarrow> [] | Some data \<Rightarrow> data)"

text \<open>
  The loop \<open>for i := len(Messages) - 1; i >= 0; i--\<close> that looks for the last message of
  role \<open>user\<close>, run on the reversed list; the result is the empty string when there is
  none.
\<close>

fun last_user_from :: "Message list \<Rightarrow> string option" where
  "last_user_from [] = Some []"
| "last_user_from (m # ms) =
     (if Role m = ''user'' then getMessageContent (Content m) else last_user_from ms)"

definition last_user_content :: "Message list \<Rightarrow> string option" where
  "last_user_content messages = last_user_from (rev messages)"

definition rd_generateMergeKey :: "libs \<Rightarrow> AnthropicRequest \<Rightarrow> string option" where
  "rd_generateMergeKey L req =
     (case last_user_content (Messages req) of
        None \<Rightarrow> None
      | Some content \<Rightarrow>
          let lastUserMsg = (if length content > 100 then take 100 content else content);
              data = (case json_Marshal L
                             (MergeKeyArg (Model req) (length (Messages req)) lastUserMsg) of
                        None \<Rightarrow> [] | Some d \<Rightarrow> d)
          in Some (md5_hex L data))"

definition rd_calculateContentSimilarity :: "AnthropicRequest \<Rightarrow> AnthropicRequest \<Rightarrow> rat option" where
  "rd_calculateContentSimilarity req1 req2 =
     (if length (Messages req1) = 0 \<and> length (Messages req2) = 0 then Some 1
      else if length (Messages req1) = 0 \<or> length (Messages req2) = 0 then Some 0
      else
        (case last_user_content (Messages req1) of
           None \<Rightarrow> None
         | Some lastMsg1 \<Rightarrow>
             (case last_user_content (Messages req2) of
                None \<Rightarrow> None
              | Some lastMsg2 \<Rightarrow> Some (rd_calculateTextSimilarity lastMsg1 lastMsg2))))"

definition rd_canMergeWithGroup :: "AnthropicRequest \<Rightarrow> MergeableGroup \<Rightarrow> bool option" where
  "rd_canMergeWithGroup req grp =
     (if Model req \<noteq> Model (mg_BaseRequest grp) then Some False
      else if absInt (int (length (Messages req)) - int (length (Messages (mg_BaseRequest grp)))) > 2
      then Some False
      else
        (case rd_calculateContentSimilarity req (mg_BaseRequest grp) of
           None \<Rightarrow> None
         | Some similarity \<Rightarrow> Some (similarity > 7 / 10)))"

text \<open>
  \<open>tryMergeRequest\<close> returns the merged response (\<open>None\<close> for nil) and the deduplicator
  with the group updated through its pointer.
\<close>

definition rd_tryMergeRequest :: "libs \<Rightarrow> RequestDeduplicator \<Rightarrow> AnthropicRequest \<Rightarrow> time
    \<Rightarrow> (DedupeResponse option \<times> RequestDeduplicator) option" where
  "rd_tryMergeRequest L rd req now =
     (case rd_generateMergeKey L req of
        None \<Rightarrow> None
      | Some mergeKey \<Rightarrow>
          (case map_of (mergeableGroups rd) mergeKey of
             None \<Rightarrow> Some (None, rd)
           | Some grp \<Rightarrow>
               (case rd_canMergeWithGroup req grp of
                  None \<Rightarrow> None
                | Some can \<Rightarrow>
                    if can \<and> now - mg_LastMerged grp < 5 * Minute then
                      let vs = mg_Variations grp @ [req];
                          grp' = grp\<lparr>mg_Variations := (if length vs > 10 then drop 1 vs else vs),
                                          mg_MergeCount := mg_MergeCount grp + 1,
                                          mg_LastMerged := now\<rparr>;
                          rd' = rd\<lparr>mergeableGroups :=
                                     AList.update mergeKey grp' (mergeableGroups rd)\<rparr>
                      in if mg_ResponseCache grp' \<noteq> None
                         then Some (Some \<lparr>dr_Response = mg_ResponseCache grp', dr_Error = None,
                                          dr_FromCache = True, dr_Merged = True\<rparr>, rd')
                         else Some (None, rd')
                    else Some (None, rd))))"

text \<open>
  \<open>ProcessRequest\<close>, which runs under the lock of the deduplicator. It returns the channel
  it hands to the caller, the \<open>ActiveRequest\<close> for which it starts
  \<open>go rd.executeRequest(activeReq)\<close> (\<open>None\<close> when it starts no execution), and the
  deduplicator after the call.
\<close>

definition new_chan :: chan where
  "new_chan = \<lparr>ch_sent = [], ch_closed = False\<rparr>"

definition recent_hit :: "RequestDeduplicator \<Rightarrow> string \<Rightarrow> time \<Rightarrow> RecentRequest option" where
  "recent_hit rd reqHash now =
     (case map_of (recentRequests rd) reqHash of
        None \<Rightarrow> None
      | Some recentReq \<Rightarrow>
          if now - rr_Timestamp recentReq < 2 * Minute then Some recentReq else None)"

definition rd_ProcessRequest :: "libs \<Rightarrow> RequestDeduplicator \<Rightarrow> AnthropicRequest \<Rightarrow> time
    \<Rightarrow> (nat \<times> nat option \<times> RequestDeduplicator) option" where
  "rd_ProcessRequest L rd req now =
     (let reqHash = rd_generateRequestHash L req;
          responseCh = length (channels rd)
      in case map_of (activeRequests rd) reqHash of
           Some p \<Rightarrow>
             if p < length (active_heap rd) then
               let activeReq = active_heap rd ! p
               in Some (responseCh, None,
                        rd\<lparr>channels := channels rd @ [new_chan],
                           active_heap :=
                             (active_heap rd)
                               [p := activeReq\<lparr>ar_Subscribers :=
                                                 ar_Subscribers activeReq @ [responseCh]\<rparr>]\<rparr>)
             else None
         | None \<Rightarrow>
             (case recent_hit rd reqHash now of
                Some recentReq \<Rightarrow>
                  Some (responseCh, None,
                        rd\<lparr>channels :=
                             channels rd
                             @ [\<lparr>ch_sent = [\<lparr>dr_Response = rr_Response recentReq,
                                              dr_Error = None, dr_FromCache = True,
                                              dr_Merged = False\<rparr>],
                                 ch_closed = True\<rparr>]\<rparr>)
              | None \<Rightarrow>
                  (case rd_tryMergeRequest L rd req now of
                     None \<Rightarrow> None
                   | Some (Some mergedResponse, rd1) \<Rightarrow>
                       Some (responseCh, None,
                             rd1\<lparr>channels :=
                                   channels rd1
                                   @ [\<lparr>ch_sent = [mergedResponse], ch_closed = True\<rparr>]\<rparr>)
                   | Some (None, rd1) \<Rightarrow>
                       let p = length (active_heap rd1);
                           activeReq = \<lparr>ar_Request = req, ar_ResponseCh = responseCh,
                                        ar_Subscribers = [], ar_StartTime = now,
                                        ar_RequestHash = reqHash\<rparr>
                       in Some (responseCh, Some p,
                                rd1\<lparr>channels := channels rd1 @ [new_chan],
                                    active_heap := active_heap rd1 @ [activeReq],
                                    activeRequests :=
                                      AList.update reqHash p (activeRequests rd1)\<rparr>))))"

text \<open>
  \<open>executeRequest\<close>, once \<open>performAPIRequest\<close> has returned \<open>(response, err)\<close>, in its two
  parts. \<open>rd_publish\<close> is the part that runs without the lock: it sends the response on
  the primary channel and on every channel of \<open>activeReq.Subscribers\<close>, as the slice is
  when the loop starts, and closes each. \<open>rd_commit\<close> is the part that runs under the
  lock: it writes the recent record, calls \<open>updateMergeableGroup\<close> and deletes the active
  record. \<open>rd_executeRequest\<close> is the run in which no other goroutine takes the lock
  between the two.
\<close>

definition send_close :: "chan list \<Rightarrow> nat \<Rightarrow> DedupeResponse \<Rightarrow> chan list option" where
  "send_close chans c v =
     (if c < length chans \<and> \<not> ch_closed (chans ! c)
      then Some (chans[c := \<lparr>ch_sent = ch_sent (chans ! c) @ [v], ch_closed = True\<rparr>])
      else None)"

fun send_close_all :: "chan list \<Rightarrow> nat list \<Rightarrow> DedupeResponse \<Rightarrow> chan list option" where
  "send_close_all chans [] v = Some chans"
| "send_close_all chans (c # cs) v =
     (case send_close chans c v of
        None \<Rightarrow> None
      | Some chans' \<Rightarrow> send_close_all chans' cs v)"

definition rd_publish :: "RequestDeduplicator \<Rightarrow> nat \<Rightarrow> response option \<times> string option
    \<Rightarrow> RequestDeduplicator option" where
  "rd_publish rd p result =
     (if p < length (active_heap rd) then
        let activeReq = active_heap rd ! p;
            dedupeResp = \<lparr>dr_Response = fst result, dr_Error = snd result,
                          dr_FromCache = False, dr_Merged = False\<rparr>
        in (case send_close_all (channels rd)
                   (ar_ResponseCh activeReq # ar_Subscribers activeReq) dedupeResp of
              None \<Rightarrow> None
            | Some chans \<Rightarrow> Some (rd\<lparr>channels := chans\<rparr>))
      else None)"

definition rd_updateMergeableGroup :: "libs \<Rightarrow> RequestDeduplicator \<Rightarrow> AnthropicRequest
    \<Rightarrow> response option \<Rightarrow> string option \<Rightarrow> time \<Rightarrow> RequestDeduplicator option" where
  "rd_updateMergeableGroup L rd req response err now =
     (if err \<noteq> None then Some rd
      else
        (case rd_generateMergeKey L req of
           None \<Rightarrow> None
         | Some mergeKey \<Rightarrow>
             (case map_of (mergeableGroups rd) mergeKey of
                Some grp \<Rightarrow>
                  Some (rd\<lparr>mergeableGroups :=
                            AList.update mergeKey
                              (grp\<lparr>mg_ResponseCache := response, mg_LastMerged := now\<rparr>)
                              (mergeableGroups rd)\<rparr>)
              | None \<Rightarrow>
                  Some (rd\<lparr>mergeableGroups :=
                            AList.update mergeKey
                              \<lparr>mg_BaseRequest = req, mg_Variations = [req], mg_LastMerged = now,
                               mg_MergeCount = 1, mg_ResponseCache = response\<rparr>
                              (mergeableGroups rd)\<rparr>))))"

definition rd_commit :: "libs \<Rightarrow> RequestDeduplicator \<Rightarrow> nat \<Rightarrow> response option \<times> string option
    \<Rightarrow> time \<Rightarrow> RequestDeduplicator option" where
  "rd_commit L rd p result now =
     (if p < length (active_heap rd) then
        let activeReq = active_heap rd ! p;
            response = fst result;
            err = snd result;
            rd1 = (if err = None
                   then rd\<lparr>recentRequests :=
                             AList.update (ar_RequestHash activeReq)
                               \<lparr>rr_Request = ar_Request activeReq, rr_Response = response,
                                rr_Timestamp = now, rr_Hash = ar_RequestHash activeReq\<rparr>
                               (recentRequests rd)\<rparr>
                   else rd)
        in (case rd_updateMergeableGroup L rd1 (ar_Request activeReq) response err now of
              None \<Rightarrow> None
            | Some rd2 \<Rightarrow>
                Some (rd2\<lparr>activeRequests :=
                           AList.delete (ar_RequestHash activeReq) (activeRequests rd2)\<rparr>))
      else None)"

definition rd_executeRequest :: "libs \<Rightarrow> RequestDeduplicator \<Rightarrow> nat \<Rightarrow> response option \<times> string option
    \<Rightarrow> time \<Rightarrow> RequestDeduplicator option" where
  "rd_executeRequest L rd p result now =
     (case rd_publish rd p result of
        None \<Rightarrow> None
      | Some rd1 \<Rightarrow> rd_commit L rd1 p result now)"

section \<open>An instance of the library functions\<close>

text \<open>
  Concrete library functions, to evaluate the model on concrete requests.
  \<open>ascii_ToLower\<close> and \<open>ascii_Fields\<close> are \<open>strings.ToLower\<close> and \<open>strings.Fields\<close> on
  strings of ASCII bytes; \<open>stable_sort_Slice\<close> is one of the orders \<open>sort.Slice\<close> may
  produce (insertion sort, descending score); \<open>exact_scale\<close> truncates the exact product.
  \<open>plain_Marshal\<close> and \<open>plain_digest\<close> stand for the JSON encoding and the MD5 digest:
  they keep apart the requests used below.
\<close>

definition ascii_lower_char :: "char \<Rightarrow> char" where
  "ascii_lower_char c =
     (let n = (of_char c :: nat) in if 65 \<le> n \<and> n \<le> 90 then char_of (n + 32) else c)"

definition ascii_ToLower :: "string \<Rightarrow> string" where
  "ascii_ToLower s = map ascii_lower_char s"

definition ascii_space :: "char \<Rightarrow> bool" where
  "ascii_space c = (let n = (of_char c :: nat) in n = 32 \<or> (9 \<le> n \<and> n \<le> 13))"

fun ascii_fields_from :: "string \<Rightarrow> string \<Rightarrow> string list" where
  "ascii_fields_from [] cur = (if cur = [] then [] else [cur])"
| "ascii_fields_from (c # cs) cur =
     (if ascii_space c
      then (if cur = [] then ascii_fields_from cs [] else cur # ascii_fields_from cs [])
      else ascii_fields_from cs (cur @ [c]))"

definition ascii_Fields :: "string \<Rightarrow> string list" where
  "ascii_Fields s = ascii_fields_from s []"

fun insert_by_score :: "MessageImportance \<Rightarrow> MessageImportance list \<Rightarrow> MessageImportance list" where
  "insert_by_score x [] = [x]"
| "insert_by_score x (y # ys) =
     (if mi_Score y \<ge> mi_Score x then y # insert_by_score x ys else x # y # ys)"

definition stable_sort_Slice :: "MessageImportance list \<Rightarrow> MessageImportance list" where
  "stable_sort_Slice xs = foldr insert_by_score xs []"

definition exact_scale :: "nat \<Rightarrow> rat \<Rightarrow> int" where
  "exact_scale n r = \<lfloor>of_nat n * r\<rfloor>"

definition plain_content :: "content \<Rightarrow> string" where
  "plain_content c =
     (case c of
        StringContent v \<Rightarrow> ''s:'' @ v
      | ArrayContent v \<Rightarrow> ''a:'' @ itoa (length v)
      | OtherContent \<Rightarrow> ''o:'')"

definition plain_messages :: "Message list \<Rightarrow> string" where
  "plain_messages msgs = concat (map (\<lambda>m. ''<'' @ Role m @ ''|'' @ plain_content (Content m) @ ''>'') msgs)"

definition plain_int :: "int \<Rightarrow> string" where
  "plain_int i = (if i < 0 then ''-'' @ itoa (nat (- i)) else itoa (nat i))"

definition plain_Marshal :: "json_arg \<Rightarrow> string option" where
  "plain_Marshal a =
     (case a of
        CacheKeyArg m msgs t \<Rightarrow> Some (''K;'' @ m @ '';'' @ plain_messages msgs @ '';'' @ plain_int t)
      | RequestArg r \<Rightarrow>
          Some (''R;'' @ Model r @ '';'' @ plain_messages (Messages r) @ '';'' @ plain_int (MaxTokens r)
                @ '';'' @ concat (map sm_Text (System r)) @ '';'' @ (if Stream r then ''1'' else ''0''))
      | MergeKeyArg m n u \<Rightarrow> Some (''M;'' @ m @ '';'' @ itoa n @ '';'' @ u)
      | PatternKeyArg m n h a \<Rightarrow>
          Some (''P;'' @ m @ '';'' @ itoa n @ '';'' @ (if h then ''1'' else ''0'') @ '';'' @ itoa a)
      | MessagesArg msgs \<Rightarrow> Some (''L;'' @ plain_messages msgs))"

definition plain_digest :: "string \<Rightarrow> string" where
  "plain_digest d = ''#'' @ d"

definition plain_libs :: libs where
  "plain_libs =
     \<lparr>json_Marshal = plain_Marshal, md5_hex = plain_digest, strings_ToLower = ascii_ToLower,
      strings_Fields = ascii_Fields, sort_Slice = stable_sort_Slice, float_scale = exact_scale\<rparr>"

text \<open>
  A request, the same request with a system prompt, and the same request with another
  value of max-tokens.
\<close>

definition msg_ping :: Message where
  "msg_ping = \<lparr>Role = ''user'', Content = StringContent ''ping''\<rparr>"

definition req_ping :: AnthropicRequest where
  "req_ping =
     \<lparr>Model = ''m1'', MaxTokens = 100, Messages = [msg_ping], System = [], Tools = [],
      Stream = False, Temperature = None, Metadata = []\<rparr>"

definition req_ping_sys :: AnthropicRequest where
  "req_ping_sys = req_ping\<lparr>System := [\<lparr>sm_Type = ''text'', sm_Text = ''be terse''\<rparr>]\<rparr>"

definition req_ping200 :: AnthropicRequest where
  "req_ping200 = req_ping\<lparr>MaxTokens := 200\<rparr>"

section \<open>Response cache: auxiliary definitions\<close>

text \<open>
  The invariant of the loop of \<open>evictLRU\<close> after the entries \<open>seen\<close>: the variables
  still hold their initial values when nothing has been seen, and otherwise describe an
  entry of \<open>seen\<close> that comes first in the eviction order.
\<close>

definition evict_inv :: "(string \<times> CacheEntry) list \<Rightarrow> string \<times> time \<times> int \<Rightarrow> bool" where
  "evict_inv seen st \<longleftrightarrow>
     (case st of (k, t, c) \<Rightarrow>
        if seen = [] then c = - 1
        else (\<exists>e. (k, e) \<in> set seen \<and> t = ce_CreatedAt e \<and> c = ce_AccessCount e \<and>
                  list_all (\<lambda>kv. evicts_before e (snd kv)) seen))"

text \<open>A cache of capacity 3 that is full.\<close>

definition rc_three :: ResponseCache where
  "rc_three =
     \<lparr>rc_cache =
        [(''k1'', \<lparr>ce_Response = Some ''r1'', ce_CreatedAt = 1, ce_AccessCount = 3\<rparr>),
         (''k2'', \<lparr>ce_Response = Some ''r2'', ce_CreatedAt = 7, ce_AccessCount = 1\<rparr>),
         (''k3'', \<lparr>ce_Response = Some ''r3'', ce_CreatedAt = 5, ce_AccessCount = 1\<rparr>)],
      rc_maxSize = 3, rc_ttl = 10 * Minute\<rparr>"

section \<open>Context compressor: auxiliary definitions\<close>

text \<open>No message of the list makes \<open>getMessageContent\<close> panic.\<close>

definition panic_free :: "Message list \<Rightarrow> bool" where
  "panic_free msgs = list_all (\<lambda>m. getMessageContent (Content m) \<noteq> None) msgs"

text \<open>
  A conversation of four messages, a compressor with a budget of 50 units, and a request
  with three short messages.
\<close>

definition talk :: "Message list" where
  "talk =
     [\<lparr>Role = ''system'', Content = StringContent ''rules''\<rparr>,
      \<lparr>Role = ''user'', Content = StringContent ''zzzz zzzz zzzz aaaa aaaa bbbb bbbb cccc cccc''\<rparr>,
      \<lparr>Role = ''assistant'', Content = StringContent ''ok''\<rparr>,
      \<lparr>Role = ''user'', Content = StringContent ''bye''\<rparr>]"

definition cc_small :: ContextCompressor where
  "cc_small = contextCompressor\<lparr>maxContextLength := 50\<rparr>"


section \<open>Request deduplicator and predictive cache: states of a run\<close>

text \<open>
  The states of the deduplicator along one run on the request \<open>req_ping\<close>, under
  \<open>plain_libs\<close>: \<open>rd_inflight\<close> after the first \<open>ProcessRequest\<close>, \<open>rd_published\<close> after
  the execution has sent its response, \<open>rd_done\<close> after it has committed with nothing in
  between; \<open>rd_joined\<close> when a second \<open>ProcessRequest\<close> for the same request runs between
  the two parts, and \<open>rd_starved\<close> after the commit that follows. \<open>pc_with_ping\<close> is the
  predictive cache after the response to \<open>req_ping\<close> has been stored at time 5.
\<close>

definition hash_ping :: string where
  "hash_ping = ''#R;m1;<user|s:ping>;100;;0''"

definition rd_inflight :: RequestDeduplicator where
  "rd_inflight =
     \<lparr>activeRequests = [(hash_ping, 0)], recentRequests = [], mergeableGroups = [],
      active_heap = [\<lparr>ar_Request = req_ping, ar_ResponseCh = 0, ar_Subscribers = [],
                      ar_StartTime = 0, ar_RequestHash = hash_ping\<rparr>],
      channels = [\<lparr>ch_sent = [], ch_closed = False\<rparr>]\<rparr>"

definition pong_response :: DedupeResponse where
  "pong_response = \<lparr>dr_Response = Some ''pong'', dr_Error = None, dr_FromCache = False, dr_Merged = False\<rparr>"

definition group_ping :: MergeableGroup where
  "group_ping =
     \<lparr>mg_BaseRequest = req_ping, mg_Variations = [req_ping], mg_LastMerged = 2,
      mg_MergeCount = 1, mg_ResponseCache = Some ''pong''\<rparr>"

definition rd_done :: RequestDeduplicator where
  "rd_done =
     \<lparr>activeRequests = [],
      recentRequests = [(hash_ping, \<lparr>rr_Request = req_ping, rr_Response = Some ''pong'',
                                     rr_Timestamp = 2, rr_Hash = hash_ping\<rparr>)],
      mergeableGroups = [(''#M;m1;1;ping'', group_ping)],
      active_heap = [\<lparr>ar_Request = req_ping, ar_ResponseCh = 0, ar_Subscribers = [],
                      ar_StartTime = 0, ar_RequestHash = hash_ping\<rparr>],
      channels = [\<lparr>ch_sent = [pong_response], ch_closed = True\<rparr>]\<rparr>"

definition rd_published :: RequestDeduplicator where
  "rd_published = rd_inflight\<lparr>channels := [\<lparr>ch_sent = [pong_response], ch_closed = True\<rparr>]\<rparr>"

definition rd_joined :: RequestDeduplicator where
  "rd_joined =
     rd_published
       \<lparr>channels := [\<lparr>ch_sent = [pong_response], ch_closed = True\<rparr>,
                     \<lparr>ch_sent = [], ch_closed = False\<rparr>],
        active_heap := [\<lparr>ar_Request = req_ping, ar_ResponseCh = 0, ar_Subscribers = [1],
                         ar_StartTime = 0, ar_RequestHash = hash_ping\<rparr>]\<rparr>"

definition rd_starved :: RequestDeduplicator where
  "rd_starved =
     rd_done
       \<lparr>channels := [\<lparr>ch_sent = [pong_response], ch_closed = True\<rparr>,
                     \<lparr>ch_sent = [], ch_closed = False\<rparr>],
        active_heap := [\<lparr>ar_Request = req_ping, ar_ResponseCh = 0, ar_Subscribers = [1],
                         ar_StartTime = 0, ar_RequestHash = hash_ping\<rparr>]\<rparr>"

definition pc_with_ping :: PredictiveCache where
  "pc_with_ping =
     predictiveCache
       \<lparr>pc_cache := [(''#K;m1;<user|s:ping>;100'',
                       \<lparr>pe_Response = Some ''pong'', pe_CreatedAt = 5, pe_AccessCount = 1,
                        pe_LastAccess = 5, pe_Confidence = 1, pe_IsPrefetch = False\<rparr>)],
        pc_patterns := [(''#P;m1;1;0;4'',
                         \<lparr>rp_BaseRequest = req_ping, rp_Variations = [req_ping], rp_Frequency = 1,
                          rp_LastSeen = 5, rp_NextPredicted = 5 + Hour, rp_SuccessRate = 1\<rparr>)]\<rparr>"

section \<open>Request deduplicator: a near-duplicate request\<close>

text \<open>
  Two prompts of 104 bytes that differ in the last byte only, so that the first 100 bytes,
  and with them the family signatures of the two requests, are the same; and the
  deduplicator after the request with the first prompt has been processed and answered.
\<close>

definition long_a :: string where
  "long_a = replicate 100 (CHR ''a'') @ ''xyz1''"

definition long_b :: string where
  "long_b = replicate 100 (CHR ''a'') @ ''xyz2''"

definition req_long_a :: AnthropicRequest where
  "req_long_a = req_ping\<lparr>Messages := [\<lparr>Role = ''user'', Content = StringContent long_a\<rparr>]\<rparr>"

definition req_long_b :: AnthropicRequest where
  "req_long_b = req_ping\<lparr>Messages := [\<lparr>Role = ''user'', Content = StringContent long_b\<rparr>]\<rparr>"

definition key_long :: string where
  "key_long = ''#M;m1;1;'' @ replicate 100 (CHR ''a'')"

definition hash_long_a :: string where
  "hash_long_a = ''#R;m1;<user|s:'' @ long_a @ ''>;100;;0''"

definition group_long :: MergeableGroup where
  "group_long =
     \<lparr>mg_BaseRequest = req_long_a, mg_Variations = [req_long_a], mg_LastMerged = 2,
      mg_MergeCount = 1, mg_ResponseCache = Some ''pong''\<rparr>"

definition rd_long_done :: RequestDeduplicator where
  "rd_long_done =
     \<lparr>activeRequests = [],
      recentRequests = [(hash_long_a, \<lparr>rr_Request = req_long_a, rr_Response = Some ''pong'',
                                       rr_Timestamp = 2, rr_Hash = hash_long_a\<rparr>)],
      mergeableGroups = [(key_long, group_long)],
      active_heap = [\<lparr>ar_Request = req_long_a, ar_ResponseCh = 0, ar_Subscribers = [],
                      ar_StartTime = 0, ar_RequestHash = hash_long_a\<rparr>],
      channels = [\<lparr>ch_sent = [pong_response], ch_closed = True\<rparr>]\<rparr>"

section \<open>Context compressor: what a summary names\<close>











section \<open>Proofs: the similarity kernel\<close>

subsection \<open>The initial matrix\<close>

lemma first_row_step:
  assumes "k < length row"
  shows "([0..<k] @ drop k row)[k := k] = [0..<Suc k] @ drop (Suc k) row"
proof (rule nth_equalityI)
  show "length (([0..<k] @ drop k row)[k := k]) = length ([0..<Suc k] @ drop (Suc k) row)"
    using assms by simp
next
  fix i assume "i < length (([0..<k] @ drop k row)[k := k])"
  then have i: "i < length row" using assms by simp
  show "([0..<k] @ drop k row)[k := k] ! i = ([0..<Suc k] @ drop (Suc k) row) ! i"
  proof (cases "i < k")
    case True
    then show ?thesis using assms by (simp add: nth_append)
  next
    case False
    show ?thesis
    proof (cases "i = k")
      case True
      then show ?thesis using assms by (simp add: nth_append)
    next
      case F2: False
      with False have "k < i" by simp
      then have "i - k = Suc (i - Suc k)" by simp
      with \<open>k < i\<close> i assms show ?thesis
        by (simp add: nth_append less_Suc_eq)
    qed
  qed
qed

lemma first_row_fold:
  assumes "mx \<noteq> []" "k \<le> length (mx ! 0)"
  shows "fold (\<lambda>j mx. mx[0 := (mx ! 0)[j := j]]) [0..<k] mx
         = mx[0 := [0..<k] @ drop k (mx ! 0)]"
  using assms(2)
proof (induction k)
  case 0
  then show ?case by simp
next
  case (Suc k)
  have len: "length mx > 0" using assms(1) by simp
  have "([0..<k] @ drop k (mx ! 0))[k := k] = [0..<Suc k] @ drop (Suc k) (mx ! 0)"
    using Suc.prems by (intro first_row_step) simp
  with Suc len show ?case by simp
qed

lemma make_matrix_eq:
  "make_matrix n m = (map (\<lambda>i. (replicate (m + 1) 0)[0 := i]) [0..<n + 1])[0 := [0..<Suc m]]"
proof -
  define mx where "mx = map (\<lambda>i. (replicate (m + 1) (0::nat))[0 := i]) [0..<n + 1]"
  have ne: "mx \<noteq> []" by (simp add: mx_def)
  have "mx ! 0 = (replicate (m + 1) 0)[0 := 0]"
    unfolding mx_def by (subst nth_map) (simp_all del: upt_Suc)
  then have l0: "length (mx ! 0) = Suc m" by simp
  have "make_matrix n m = fold (\<lambda>j mx. mx[0 := (mx ! 0)[j := j]]) [0..<length (mx ! 0)] mx"
    unfolding make_matrix_def Let_def mx_def ..
  also have "\<dots> = mx[0 := [0..<length (mx ! 0)] @ drop (length (mx ! 0)) (mx ! 0)]"
    by (rule first_row_fold[OF ne]) simp
  also have "\<dots> = mx[0 := [0..<Suc m]]" using l0 by simp
  finally show ?thesis unfolding mx_def .
qed

lemma make_matrix_length: "length (make_matrix n m) = Suc n"
  by (simp add: make_matrix_eq)

lemma make_matrix_row_length: "r \<le> n \<Longrightarrow> length (make_matrix n m ! r) = Suc m"
  by (cases r) (simp_all add: make_matrix_eq nth_append del: upt_Suc replicate_Suc)

lemma make_matrix_first_row: "c \<le> m \<Longrightarrow> make_matrix n m ! 0 ! c = c"
  by (simp add: make_matrix_eq nth_append del: upt_Suc replicate_Suc)

lemma make_matrix_first_col: "r \<le> n \<Longrightarrow> make_matrix n m ! r ! 0 = r"
  by (cases r) (simp_all add: make_matrix_eq nth_append del: upt_Suc replicate_Suc)

subsection \<open>The loops compute the recurrence\<close>


lemma levenshtein_rec_col0: "levenshtein_rec a b r 0 = r"
  by (cases r) simp_all

lemma lev_inv_init: "lev_inv s1 s2 1 1 (make_matrix (length s1) (length s2))"
  unfolding lev_inv_def
  by (auto simp: make_matrix_length make_matrix_row_length make_matrix_first_row
        make_matrix_first_col levenshtein_rec_col0)

lemma lev_cell_value:
  assumes "lev_inv s1 s2 (Suc i) (Suc j) mx" "i < length s1" "j < length s2"
  shows "minInt (minInt (mx ! i ! Suc j + 1) (mx ! Suc i ! j + 1))
           (mx ! i ! j + (if s1 ! i \<noteq> s2 ! j then 1 else 0))
         = levenshtein_rec s1 s2 (Suc i) (Suc j)"
proof -
  have a: "mx ! i ! Suc j = levenshtein_rec s1 s2 i (Suc j)"
    using assms unfolding lev_inv_def by simp
  have b: "mx ! Suc i ! j = levenshtein_rec s1 s2 (Suc i) j"
    using assms unfolding lev_inv_def by simp
  have c: "mx ! i ! j = levenshtein_rec s1 s2 i j"
    using assms unfolding lev_inv_def by simp
  show ?thesis unfolding a b c by (simp add: minInt_def min_def)
qed

lemma lev_cell_step:
  assumes inv: "lev_inv s1 s2 (Suc i) (Suc j) mx" and i: "i < length s1" and j: "j < length s2"
  shows "lev_inv s1 s2 (Suc i) (Suc (Suc j)) (lev_cell s1 s2 (Suc i) (Suc j) mx)"
proof -
  define v where "v = minInt (minInt (mx ! i ! Suc j + 1) (mx ! Suc i ! j + 1))
           (mx ! i ! j + (if s1 ! i \<noteq> s2 ! j then 1 else 0))"
  have cell: "lev_cell s1 s2 (Suc i) (Suc j) mx = mx[Suc i := (mx ! Suc i)[Suc j := v]]"
    unfolding lev_cell_def v_def Let_def by simp
  have v: "v = levenshtein_rec s1 s2 (Suc i) (Suc j)"
    unfolding v_def using lev_cell_value[OF inv i j] .
  have len: "length mx = Suc (length s1)" using inv unfolding lev_inv_def by simp
  have rows: "\<And>r. r \<le> length s1 \<Longrightarrow> length (mx ! r) = Suc (length s2)"
    using inv unfolding lev_inv_def by simp
  have old: "\<And>r c. r \<le> length s1 \<Longrightarrow> c \<le> length s2 \<Longrightarrow> (r < Suc i \<or> (r = Suc i \<and> c < Suc j) \<or> c = 0)
        \<Longrightarrow> mx ! r ! c = levenshtein_rec s1 s2 r c"
    using inv unfolding lev_inv_def by blast
  show ?thesis
    unfolding lev_inv_def cell
  proof (intro conjI allI impI)
    show "length (mx[Suc i := (mx ! Suc i)[Suc j := v]]) = Suc (length s1)" using len by simp
  next
    fix r assume "r \<le> length s1"
    then show "length (mx[Suc i := (mx ! Suc i)[Suc j := v]] ! r) = Suc (length s2)"
      using len rows by (cases "r = Suc i") simp_all
  next
    fix r c
    assume h: "r \<le> length s1 \<and> c \<le> length s2 \<and> (r < Suc i \<or> r = Suc i \<and> c < Suc (Suc j) \<or> c = 0)"
    show "mx[Suc i := (mx ! Suc i)[Suc j := v]] ! r ! c = levenshtein_rec s1 s2 r c"
    proof (cases "r = Suc i")
      case False
      then have "mx[Suc i := (mx ! Suc i)[Suc j := v]] ! r ! c = mx ! r ! c" by simp
      also have "\<dots> = levenshtein_rec s1 s2 r c" using h False by (intro old) auto
      finally show ?thesis .
    next
      case True
      show ?thesis
      proof (cases "c = Suc j")
        case c: True
        have "mx[Suc i := (mx ! Suc i)[Suc j := v]] ! r ! c = v"
          using True c len i j rows[of "Suc i"] by simp
        then show ?thesis using v True c by simp
      next
        case c: False
        have "mx[Suc i := (mx ! Suc i)[Suc j := v]] ! r ! c = mx ! r ! c"
          using True c len i by simp
        also have "\<dots> = levenshtein_rec s1 s2 r c" using h True c by (intro old) auto
        finally show ?thesis .
      qed
    qed
  qed
qed

lemma lev_row_partial:
  assumes inv: "lev_inv s1 s2 (Suc i) 1 mx" and i: "i < length s1"
  shows "k \<le> length s2 \<Longrightarrow>
         lev_inv s1 s2 (Suc i) (Suc k) (fold (lev_cell s1 s2 (Suc i)) [1..<Suc k] mx)"
proof (induction k)
  case 0
  then show ?case using inv by simp
next
  case (Suc k)
  then have IH: "lev_inv s1 s2 (Suc i) (Suc k) (fold (lev_cell s1 s2 (Suc i)) [1..<Suc k] mx)"
    by simp
  have "fold (lev_cell s1 s2 (Suc i)) [1..<Suc (Suc k)] mx
        = lev_cell s1 s2 (Suc i) (Suc k) (fold (lev_cell s1 s2 (Suc i)) [1..<Suc k] mx)"
    by simp
  moreover have "lev_inv s1 s2 (Suc i) (Suc (Suc k))
      (lev_cell s1 s2 (Suc i) (Suc k) (fold (lev_cell s1 s2 (Suc i)) [1..<Suc k] mx))"
    using lev_cell_step[OF IH i] Suc.prems by simp
  ultimately show ?case by simp
qed

lemma lev_row_step:
  assumes inv: "lev_inv s1 s2 (Suc i) 1 mx" and i: "i < length s1"
  shows "lev_inv s1 s2 (Suc (Suc i)) 1 (lev_row s1 s2 (Suc i) mx)"
proof -
  have "lev_inv s1 s2 (Suc i) (Suc (length s2)) (lev_row s1 s2 (Suc i) mx)"
    unfolding lev_row_def using lev_row_partial[OF inv i, of "length s2"] by simp
  then have len: "length (lev_row s1 s2 (Suc i) mx) = Suc (length s1)"
    and rows: "\<forall>r \<le> length s1. length (lev_row s1 s2 (Suc i) mx ! r) = Suc (length s2)"
    and cells: "\<And>r c. r \<le> length s1 \<Longrightarrow> c \<le> length s2 \<Longrightarrow>
        (r < Suc i \<or> (r = Suc i \<and> c < Suc (length s2)) \<or> c = 0) \<Longrightarrow>
        lev_row s1 s2 (Suc i) mx ! r ! c = levenshtein_rec s1 s2 r c"
    unfolding lev_inv_def by blast+
  show ?thesis
    unfolding lev_inv_def
  proof (intro conjI allI impI)
    fix r c
    assume h: "r \<le> length s1 \<and> c \<le> length s2 \<and> (r < Suc (Suc i) \<or> r = Suc (Suc i) \<and> c < 1 \<or> c = 0)"
    then have "r < Suc i \<or> (r = Suc i \<and> c < Suc (length s2)) \<or> c = 0" by auto
    with h show "lev_row s1 s2 (Suc i) mx ! r ! c = levenshtein_rec s1 s2 r c"
      by (intro cells) auto
  qed (use len rows in auto)
qed

lemma lev_fill_partial:
  "k \<le> length s1 \<Longrightarrow>
   lev_inv s1 s2 (Suc k) 1
     (fold (lev_row s1 s2) [1..<Suc k] (make_matrix (length s1) (length s2)))"
proof (induction k)
  case 0
  then show ?case using lev_inv_init by simp
next
  case (Suc k)
  then have IH: "lev_inv s1 s2 (Suc k) 1
     (fold (lev_row s1 s2) [1..<Suc k] (make_matrix (length s1) (length s2)))" by simp
  from lev_row_step[OF IH] Suc.prems show ?case by simp
qed

lemma lev_fill_correct:
  "lev_fill s1 s2 (make_matrix (length s1) (length s2)) ! length s1 ! length s2
   = levenshtein_rec s1 s2 (length s1) (length s2)"
proof -
  have "lev_inv s1 s2 (Suc (length s1)) 1 (lev_fill s1 s2 (make_matrix (length s1) (length s2)))"
    unfolding lev_fill_def using lev_fill_partial[of "length s1" s1 s2] by simp
  then show ?thesis unfolding lev_inv_def by simp
qed

lemma levenshteinDistance_correct:
  assumes "s1 \<noteq> []" "s2 \<noteq> []"
  shows "levenshteinDistance s1 s2 = editDistance_spec s1 s2"
proof -
  have t1: "(if length s1 > 500 then take 500 s1 else s1) = take 500 s1" by simp
  have t2: "(if length s2 > 500 then take 500 s2 else s2) = take 500 s2" by simp
  show ?thesis
    unfolding levenshteinDistance_def editDistance_spec_def levenshtein_def Let_def t1 t2
    using assms lev_fill_correct[of "take 500 s1" "take 500 s2"] by simp
qed

subsection \<open>The recurrence is the least number of edits\<close>

lemma levenshtein_rec_prefix:
  "i \<le> length a \<Longrightarrow> j \<le> length b \<Longrightarrow>
   levenshtein_rec (a @ a') (b @ b') i j = levenshtein_rec a b i j"
proof (induction a b i j rule: levenshtein_rec.induct)
  case (1 a b j)
  then show ?case by simp
next
  case (2 a b i)
  then show ?case by simp
next
  case (3 a b i j)
  then show ?case by (simp add: nth_append)
qed

lemma levenshtein_Nil_left [simp]: "levenshtein [] b = length b"
  by (simp add: levenshtein_def)

lemma levenshtein_Nil_right [simp]: "levenshtein a [] = length a"
  by (simp add: levenshtein_def levenshtein_rec_col0)

lemma levenshtein_snoc:
  "levenshtein (a @ [x]) (b @ [y])
   = min (min (levenshtein a (b @ [y]) + 1) (levenshtein (a @ [x]) b + 1))
         (levenshtein a b + (if x = y then 0 else 1))"
proof -
  have 1: "levenshtein_rec (a @ [x]) (b @ [y]) (length a) (Suc (length b))
           = levenshtein_rec a (b @ [y]) (length a) (Suc (length b))"
    using levenshtein_rec_prefix[of "length a" a "Suc (length b)" "b @ [y]" "[x]" "[]"] by simp
  have 2: "levenshtein_rec (a @ [x]) (b @ [y]) (Suc (length a)) (length b)
           = levenshtein_rec (a @ [x]) b (Suc (length a)) (length b)"
    using levenshtein_rec_prefix[of "Suc (length a)" "a @ [x]" "length b" b "[]" "[y]"] by simp
  have 3: "levenshtein_rec (a @ [x]) (b @ [y]) (length a) (length b)
           = levenshtein_rec a b (length a) (length b)"
    using levenshtein_rec_prefix[of "length a" a "length b" b "[x]" "[y]"] by simp
  show ?thesis
    unfolding levenshtein_def by (simp add: 1 2 3)
qed

lemma levenshtein_delete_le: "levenshtein (a @ [x]) b \<le> Suc (levenshtein a b)"
proof (cases b rule: rev_cases)
  case Nil
  then show ?thesis by simp
next
  case (snoc b' y)
  then show ?thesis by (simp add: levenshtein_snoc min_le_iff_disj)
qed

lemma levenshtein_insert_le: "levenshtein a (b @ [y]) \<le> Suc (levenshtein a b)"
proof (cases a rule: rev_cases)
  case Nil
  then show ?thesis by simp
next
  case (snoc a' x)
  then show ?thesis by (simp add: levenshtein_snoc min_le_iff_disj)
qed

lemma levenshtein_lower_bound: "edits a b n \<Longrightarrow> levenshtein a b \<le> n"
proof (induction rule: edits.induct)
  case edits_Nil
  then show ?case by simp
next
  case (edits_keep a b n x)
  then show ?case by (simp add: levenshtein_snoc min_le_iff_disj)
next
  case (edits_substitute a b n x y)
  have "levenshtein (a @ [x]) (b @ [y]) \<le> levenshtein a b + 1"
    by (simp add: levenshtein_snoc min_le_iff_disj)
  with edits_substitute.IH show ?case by simp
next
  case (edits_delete a b n x)
  with levenshtein_delete_le[of a x b] show ?case by simp
next
  case (edits_insert a b n y)
  with levenshtein_insert_le[of a b y] show ?case by simp
qed

lemma edits_from_Nil: "edits [] b (length b)"
proof (induction b rule: rev_induct)
  case Nil
  then show ?case by (simp add: edits_Nil)
next
  case (snoc y b)
  from edits_insert[OF snoc, of y] show ?case by simp
qed

lemma edits_to_Nil: "edits a [] (length a)"
proof (induction a rule: rev_induct)
  case Nil
  then show ?case by (simp add: edits_Nil)
next
  case (snoc x a)
  from edits_delete[OF snoc, of x] show ?case by simp
qed

lemma levenshtein_attained: "edits a b (levenshtein a b)"
proof (induction "length a + length b" arbitrary: a b rule: less_induct)
  case less
  show ?case
  proof (cases a rule: rev_cases)
    case Nil
    then show ?thesis by (simp add: edits_from_Nil)
  next
    case sa: (snoc a' x)
    show ?thesis
    proof (cases b rule: rev_cases)
      case Nil
      then show ?thesis using edits_to_Nil[of a] by simp
    next
      case sb: (snoc b' y)
      have d: "edits a' (b' @ [y]) (levenshtein a' (b' @ [y]))"
        by (rule less) (simp add: sa sb)
      have i: "edits (a' @ [x]) b' (levenshtein (a' @ [x]) b')"
        by (rule less) (simp add: sa sb)
      have s: "edits a' b' (levenshtein a' b')"
        by (rule less) (simp add: sa sb)
      let ?D = "levenshtein a' (b' @ [y]) + 1"
      let ?I = "levenshtein (a' @ [x]) b' + 1"
      let ?S = "levenshtein a' b' + (if x = y then 0 else 1)"
      have eD: "edits (a' @ [x]) (b' @ [y]) ?D" using edits_delete[OF d, of x] by simp
      have eI: "edits (a' @ [x]) (b' @ [y]) ?I" using edits_insert[OF i, of y] by simp
      have eS: "edits (a' @ [x]) (b' @ [y]) ?S"
        using edits_keep[OF s, of x] edits_substitute[OF s, of x y] by (cases "x = y") simp_all
      have "levenshtein (a' @ [x]) (b' @ [y]) = min (min ?D ?I) ?S"
        by (rule levenshtein_snoc)
      then have "levenshtein (a' @ [x]) (b' @ [y]) = ?D \<or> levenshtein (a' @ [x]) (b' @ [y]) = ?I
          \<or> levenshtein (a' @ [x]) (b' @ [y]) = ?S"
        by (auto simp: min_def)
      with eD eI eS show ?thesis unfolding sa sb by metis
    qed
  qed
qed

lemma levenshtein_is_least:
  "edits a b (levenshtein a b) \<and> (\<forall>n. edits a b n \<longrightarrow> levenshtein a b \<le> n)"
  using levenshtein_attained levenshtein_lower_bound by blast

subsection \<open>Text similarity\<close>

lemma levenshtein_rec_diag: "levenshtein_rec a a i i = 0"
  by (induction i) simp_all

lemma editDistance_spec_same: "editDistance_spec s s = 0"
  by (simp add: editDistance_spec_def levenshtein_def levenshtein_rec_diag)

lemma editDistance_spec_Nil_left: "length b \<le> 500 \<Longrightarrow> editDistance_spec [] b = length b"
  by (simp add: editDistance_spec_def levenshtein_def)

lemma editDistance_spec_Nil_right: "length a \<le> 500 \<Longrightarrow> editDistance_spec a [] = length a"
  by (simp add: editDistance_spec_def levenshtein_def levenshtein_rec_col0)

lemma textSimilarity_both_nonempty:
  assumes "a \<noteq> []" "b \<noteq> []"
  shows "rd_calculateTextSimilarity a b = textSimilarity_spec a b"
proof (cases "a = b")
  case True
  then show ?thesis
    by (simp add: rd_calculateTextSimilarity_def textSimilarity_spec_def editDistance_spec_same)
next
  case False
  have "max (length a) (length b) \<noteq> 0" using assms by simp
  with False assms show ?thesis
    by (simp add: rd_calculateTextSimilarity_def textSimilarity_spec_def Let_def
        levenshteinDistance_correct)
qed

lemma textSimilarity_one_empty:
  assumes "a = [] \<or> b = []" "length a \<le> 500" "length b \<le> 500"
  shows "rd_calculateTextSimilarity a b = textSimilarity_spec a b"
proof (cases "a = b")
  case True
  with assms(1) show ?thesis
    by (auto simp: rd_calculateTextSimilarity_def textSimilarity_spec_def editDistance_spec_same)
next
  case False
  from assms(1) show ?thesis
  proof
    assume a: "a = []"
    with False have "b \<noteq> []" by auto
    with a assms(3) show ?thesis
      by (simp add: rd_calculateTextSimilarity_def textSimilarity_spec_def
          editDistance_spec_Nil_left)
  next
    assume b: "b = []"
    with False have "a \<noteq> []" by auto
    with b assms(2) show ?thesis
      by (simp add: rd_calculateTextSimilarity_def textSimilarity_spec_def
          editDistance_spec_Nil_right)
  qed
qed

text \<open>
  C9, as stated, fails: with one argument empty and the other longer than 500 units the
  code returns 0, while the formula over the truncated distance gives \<open>1 - 500/501\<close>.
\<close>

theorem C9_formula_counterexample:
  "rd_calculateTextSimilarity [] (replicate 501 (CHR ''x''))
   \<noteq> textSimilarity_spec [] (replicate 501 (CHR ''x''))"
proof -
  have l: "rd_calculateTextSimilarity [] (replicate 501 (CHR ''x'')) = 0"
    by (simp add: rd_calculateTextSimilarity_def)
  have "editDistance_spec [] (replicate 501 (CHR ''x'')) = 500"
    by (simp add: editDistance_spec_def levenshtein_def)
  then have r: "textSimilarity_spec [] (replicate 501 (CHR ''x'')) = 1 / 501"
    by (simp add: textSimilarity_spec_def)
  show ?thesis unfolding l r by simp
qed

text \<open>
  C9, amended: \<open>textSimilarity(a, b) = 1 - editDistance(a, b) / max(len(a), len(b))\<close>, with
  \<open>editDistance\<close> the Levenshtein distance of the inputs truncated to 500 units, holds
  unless one argument is empty and the other is longer than 500 units; the similarity of a
  string with itself is 1, that of two empty strings is 1, and it is 0 when exactly one
  argument is empty.
\<close>

theorem C9_textSimilarity:
  "((a = [] \<or> b = [] \<longrightarrow> length a \<le> 500 \<and> length b \<le> 500)
      \<longrightarrow> rd_calculateTextSimilarity a b = textSimilarity_spec a b)
   \<and> rd_calculateTextSimilarity s s = 1
   \<and> rd_calculateTextSimilarity [] [] = 1
   \<and> ((a = []) \<noteq> (b = []) \<longrightarrow> rd_calculateTextSimilarity a b = 0)"
proof (intro conjI impI)
  assume h: "a = [] \<or> b = [] \<longrightarrow> length a \<le> 500 \<and> length b \<le> 500"
  show "rd_calculateTextSimilarity a b = textSimilarity_spec a b"
  proof (cases "a = [] \<or> b = []")
    case True
    with h show ?thesis by (intro textSimilarity_one_empty) auto
  next
    case False
    then show ?thesis by (intro textSimilarity_both_nonempty) auto
  qed
next
  show "rd_calculateTextSimilarity s s = 1"
    by (simp add: rd_calculateTextSimilarity_def)
next
  show "rd_calculateTextSimilarity [] [] = 1"
    by (simp add: rd_calculateTextSimilarity_def)
next
  assume "(a = []) \<noteq> (b = [])"
  then show "rd_calculateTextSimilarity a b = 0"
    by (auto simp: rd_calculateTextSimilarity_def)
qed

theorem C9_textSimilarity_witness:
  "rd_calculateTextSimilarity ''kitten'' ''sitting'' = textSimilarity_spec ''kitten'' ''sitting''
   \<and> rd_calculateTextSimilarity ''kitten'' ''sitting'' = 4 / 7
   \<and> rd_calculateTextSimilarity ''kitten'' ''kitten'' = 1
   \<and> rd_calculateTextSimilarity [] [] = 1
   \<and> rd_calculateTextSimilarity ''kitten'' [] = 0"
proof -
  have v: "rd_calculateTextSimilarity ''kitten'' ''sitting'' = 4 / 7"
    by code_simp
  show ?thesis
    using C9_textSimilarity[of "''kitten''" "''sitting''" "''kitten''"]
      C9_textSimilarity[of "''kitten''" "[]" "''kitten''"] v
    by simp
qed

section \<open>Proofs: response cache\<close>

lemma evicts_before_refl: "evicts_before e e"
  by (simp add: evicts_before_def)

lemma evicts_before_trans: "evicts_before a b \<Longrightarrow> evicts_before b c \<Longrightarrow> evicts_before a c"
  by (auto simp: evicts_before_def)

lemma evict_step_inv:
  assumes inv: "evict_inv seen st"
    and counts: "list_all (\<lambda>kv. 1 \<le> ce_AccessCount (snd kv)) seen"
  shows "evict_inv (seen @ [kv]) (evict_step kv st)"
proof -
  obtain key entry where kv: "kv = (key, entry)" by (cases kv)
  obtain k t c where st: "st = (k, t, c)" by (cases st)
  show ?thesis
  proof (cases "seen = []")
    case True
    with inv st have "c = - 1" by (simp add: evict_inv_def)
    with True kv st show ?thesis
      by (simp add: evict_inv_def evict_step_def evicts_before_refl)
  next
    case False
    with inv st obtain e where e: "(k, e) \<in> set seen" "t = ce_CreatedAt e" "c = ce_AccessCount e"
      and least: "list_all (\<lambda>kv. evicts_before e (snd kv)) seen"
      by (auto simp: evict_inv_def)
    from counts e(1) have "1 \<le> ce_AccessCount e" by (auto simp: list_all_iff)
    with e(3) have c: "c \<noteq> - 1" by simp
    show ?thesis
    proof (cases "ce_AccessCount entry < c \<or> (ce_AccessCount entry = c \<and> ce_CreatedAt entry < t)")
      case True
      then have step: "evict_step kv st = (key, ce_CreatedAt entry, ce_AccessCount entry)"
        using kv st by (simp add: evict_step_def)
      from True e have "evicts_before entry e" by (auto simp: evicts_before_def)
      with least have "list_all (\<lambda>kv. evicts_before entry (snd kv)) seen"
        by (auto simp: list_all_iff intro: evicts_before_trans)
      then show ?thesis
        unfolding step using kv by (auto simp: evict_inv_def evicts_before_refl)
    next
      case F: False
      then have step: "evict_step kv st = st"
        using kv st c by (simp add: evict_step_def)
      from F e have "evicts_before e entry" by (auto simp: evicts_before_def)
      have "evict_inv (seen @ [kv]) (k, t, c)"
        unfolding evict_inv_def using least e kv \<open>evicts_before e entry\<close>
        by (auto intro!: exI[of _ e])
      then show ?thesis using step st by simp
    qed
  qed
qed

lemma evict_fold_inv:
  "evict_inv seen st \<Longrightarrow> list_all (\<lambda>kv. 1 \<le> ce_AccessCount (snd kv)) (seen @ xs)
   \<Longrightarrow> evict_inv (seen @ xs) (fold evict_step xs st)"
proof (induction xs arbitrary: seen st)
  case Nil
  then show ?case by simp
next
  case (Cons x xs)
  have "evict_inv (seen @ [x]) (evict_step x st)"
    using Cons.prems by (intro evict_step_inv) auto
  from Cons.IH[OF this] Cons.prems(2) show ?case by simp
qed

lemma evict_fold_least:
  assumes "xs \<noteq> []" "list_all (\<lambda>kv. 1 \<le> ce_AccessCount (snd kv)) xs"
  shows "\<exists>k e. fold evict_step xs ([], 0, - 1) = (k, ce_CreatedAt e, ce_AccessCount e) \<and>
               (k, e) \<in> set xs \<and> list_all (\<lambda>kv. evicts_before e (snd kv)) xs"
proof -
  have "evict_inv [] ([], 0, - 1)" by (simp add: evict_inv_def)
  from evict_fold_inv[OF this, of xs] assms(2)
  have "evict_inv xs (fold evict_step xs ([], 0, - 1))" by simp
  with assms(1) show ?thesis
    by (cases "fold evict_step xs ([], 0, - 1)") (auto simp: evict_inv_def)
qed

lemma delete_distinct_set:
  "distinct (map fst xs) \<Longrightarrow> (k, e) \<in> set xs \<Longrightarrow> set (AList.delete k xs) = set xs - {(k, e)}"
  by (induction xs) (auto simp: AList.delete_eq rev_image_eqI)

lemma delete_distinct_length:
  "distinct (map fst xs) \<Longrightarrow> (k, e) \<in> set xs \<Longrightarrow> Suc (length (AList.delete k xs)) = length xs"
proof (induction xs)
  case Nil
  then show ?case by simp
next
  case (Cons x xs)
  show ?case
  proof (cases "fst x = k")
    case True
    with Cons.prems have "k \<notin> fst ` set xs" by auto
    then have "AList.delete k xs = xs" by (simp add: AList.delete_id)
    with True show ?thesis by (cases x) (simp add: AList.delete_eq)
  next
    case False
    with Cons show ?thesis by (auto simp: AList.delete_eq)
  qed
qed

lemma update_fresh: "k \<notin> fst ` set xs \<Longrightarrow> AList.update k v xs = xs @ [(k, v)]"
  by (induction xs) auto

lemma rc_evictLRU_full:
  assumes wf: "rc_wf rc" and ne: "rc_cache rc \<noteq> []"
  shows "\<exists>k e. (k, e) \<in> set (rc_cache rc) \<and>
               list_all (\<lambda>kv. evicts_before e (snd kv)) (rc_cache rc) \<and>
               rc_evictLRU rc = rc\<lparr>rc_cache := AList.delete k (rc_cache rc)\<rparr>"
proof -
  from wf have counts: "list_all (\<lambda>kv. 1 \<le> ce_AccessCount (snd kv)) (rc_cache rc)"
    by (auto simp: rc_wf_def list_all_iff)
  from evict_fold_least[OF ne counts] obtain k e where
    f: "fold evict_step (rc_cache rc) ([], 0, - 1) = (k, ce_CreatedAt e, ce_AccessCount e)"
    and mem: "(k, e) \<in> set (rc_cache rc)"
    and least: "list_all (\<lambda>kv. evicts_before e (snd kv)) (rc_cache rc)"
    by blast
  from wf mem have "k \<noteq> []" by (auto simp: rc_wf_def list_all_iff)
  then have "rc_evictLRU rc = rc\<lparr>rc_cache := AList.delete k (rc_cache rc)\<rparr>"
    by (simp add: rc_evictLRU_def f)
  with mem least show ?thesis by blast
qed

lemma length_update_le: "length (AList.update k v xs) \<le> Suc (length xs)"
  by (induction xs) auto

lemma rc_wf_update:
  assumes "rc_wf rc" "k \<noteq> []" "1 \<le> ce_AccessCount v"
  shows "rc_wf (rc\<lparr>rc_cache := AList.update k v (rc_cache rc)\<rparr>)"
proof -
  have "list_all (\<lambda>kv. fst kv \<noteq> [] \<and> 1 \<le> ce_AccessCount (snd kv)) (AList.update k v xs)"
    if "list_all (\<lambda>kv. fst kv \<noteq> [] \<and> 1 \<le> ce_AccessCount (snd kv)) xs" for xs
    using that assms(2,3) by (induction xs) auto
  with assms(1) show ?thesis
    by (simp add: rc_wf_def AList.distinct_update)
qed

lemma rc_wf_delete:
  assumes "rc_wf rc"
  shows "rc_wf (rc\<lparr>rc_cache := AList.delete k (rc_cache rc)\<rparr>)"
proof -
  have "set (AList.delete k (rc_cache rc)) \<subseteq> set (rc_cache rc)"
    by (auto simp: AList.delete_eq)
  with assms show ?thesis
    by (auto simp: rc_wf_def AList.distinct_delete list_all_iff)
qed

lemma rc_wf_evictLRU: "rc_wf rc \<Longrightarrow> rc_wf (rc_evictLRU rc)"
  by (auto simp: rc_evictLRU_def rc_wf_delete split: prod.splits)

lemma rc_evictLRU_length: "length (rc_cache (rc_evictLRU rc)) \<le> length (rc_cache rc)"
  by (auto simp: rc_evictLRU_def AList.delete_eq split: prod.splits)

lemma rc_wf_Set: "rc_wf rc \<Longrightarrow> rc_wf (rc_Set L rc req response now)"
  unfolding rc_Set_def Let_def
  by (auto intro!: rc_wf_update rc_wf_evictLRU)

lemma rc_wf_Get: "rc_wf rc \<Longrightarrow> rc_wf (snd (rc_Get L rc req now))"
proof -
  assume wf: "rc_wf rc"
  have "1 \<le> ce_AccessCount e + 1" if "map_of (rc_cache rc) k = Some e" for k e
  proof -
    from that have "(k, e) \<in> set (rc_cache rc)" by (rule map_of_SomeD)
    with wf have "1 \<le> ce_AccessCount e" by (auto simp: rc_wf_def list_all_iff)
    then show ?thesis by simp
  qed
  with wf show ?thesis
    unfolding rc_Get_def Let_def
    by (auto intro!: rc_wf_update split: option.splits)
qed

text \<open>
  C3: a \<open>Set\<close> of a new key into a cache that holds \<open>maxSize\<close> entries evicts exactly
  one entry \<open>(k, e)\<close>, one that comes first in the eviction order (lowest access count,
  ties broken by the oldest creation time), and stores the new entry, so the cache holds
  \<open>maxSize\<close> entries again; and no \<open>Set\<close> takes a cache with at most \<open>maxSize\<close> entries
  above \<open>maxSize\<close>.
\<close>

theorem C3_Set_at_capacity:
  assumes wf: "rc_wf rc" and cap: "0 < rc_maxSize rc"
  shows "(rc_generateCacheKey L req \<noteq> [] \<and>
          rc_generateCacheKey L req \<notin> fst ` set (rc_cache rc) \<and>
          int (length (rc_cache rc)) = rc_maxSize rc
          \<longrightarrow> (\<exists>k e. (k, e) \<in> set (rc_cache rc) \<and>
                 list_all (\<lambda>kv. evicts_before e (snd kv)) (rc_cache rc) \<and>
                 rc_cache (rc_Set L rc req response now)
                   = AList.delete k (rc_cache rc)
                     @ [(rc_generateCacheKey L req,
                         \<lparr>ce_Response = response, ce_CreatedAt = now, ce_AccessCount = 1\<rparr>)] \<and>
                 set (AList.delete k (rc_cache rc)) = set (rc_cache rc) - {(k, e)} \<and>
                 length (rc_cache (rc_Set L rc req response now)) = length (rc_cache rc)))
       \<and> (int (length (rc_cache rc)) \<le> rc_maxSize rc
          \<longrightarrow> int (length (rc_cache (rc_Set L rc req response now))) \<le> rc_maxSize rc)
       \<and> rc_maxSize (rc_Set L rc req response now) = rc_maxSize rc"
proof (intro conjI impI)
  assume h: "rc_generateCacheKey L req \<noteq> [] \<and>
          rc_generateCacheKey L req \<notin> fst ` set (rc_cache rc) \<and>
          int (length (rc_cache rc)) = rc_maxSize rc"
  define key where "key = rc_generateCacheKey L req"
  define new where "new = \<lparr>ce_Response = response, ce_CreatedAt = now, ce_AccessCount = 1\<rparr>"
  from h have key: "key \<noteq> []" and fresh: "key \<notin> fst ` set (rc_cache rc)"
    and full: "int (length (rc_cache rc)) = rc_maxSize rc" by (simp_all add: key_def)
  from key have ns: "\<not> Stream req" by (auto simp: key_def rc_generateCacheKey_def)
  from full cap have ne: "rc_cache rc \<noteq> []" by auto
  from rc_evictLRU_full[OF wf ne] obtain k e where
    mem: "(k, e) \<in> set (rc_cache rc)"
    and least: "list_all (\<lambda>kv. evicts_before e (snd kv)) (rc_cache rc)"
    and ev: "rc_evictLRU rc = rc\<lparr>rc_cache := AList.delete k (rc_cache rc)\<rparr>" by blast
  from wf have d: "distinct (map fst (rc_cache rc))" by (simp add: rc_wf_def)
  have fresh': "key \<notin> fst ` set (AList.delete k (rc_cache rc))"
    using fresh by (auto simp: AList.delete_eq)
  have set_eq: "rc_cache (rc_Set L rc req response now) = AList.delete k (rc_cache rc) @ [(key, new)]"
    using ns key full ev update_fresh[OF fresh', of new]
    by (simp add: rc_Set_def Let_def key_def[symmetric] new_def[symmetric])
  have len: "Suc (length (AList.delete k (rc_cache rc))) = length (rc_cache rc)"
    by (rule delete_distinct_length[OF d mem])
  show "\<exists>k e. (k, e) \<in> set (rc_cache rc) \<and>
                 list_all (\<lambda>kv. evicts_before e (snd kv)) (rc_cache rc) \<and>
                 rc_cache (rc_Set L rc req response now)
                   = AList.delete k (rc_cache rc)
                     @ [(rc_generateCacheKey L req,
                         \<lparr>ce_Response = response, ce_CreatedAt = now, ce_AccessCount = 1\<rparr>)] \<and>
                 set (AList.delete k (rc_cache rc)) = set (rc_cache rc) - {(k, e)} \<and>
                 length (rc_cache (rc_Set L rc req response now)) = length (rc_cache rc)"
    using mem least set_eq delete_distinct_set[OF d mem] len
    unfolding key_def new_def by (intro exI[of _ k] exI[of _ e]) simp
next
  assume le: "int (length (rc_cache rc)) \<le> rc_maxSize rc"
  show "int (length (rc_cache (rc_Set L rc req response now))) \<le> rc_maxSize rc"
  proof (cases "Stream req \<or> rc_generateCacheKey L req = []")
    case True
    then show ?thesis using le by (auto simp: rc_Set_def Let_def)
  next
    case False
    define key where "key = rc_generateCacheKey L req"
    define new where "new = \<lparr>ce_Response = response, ce_CreatedAt = now, ce_AccessCount = 1\<rparr>"
    show ?thesis
    proof (cases "int (length (rc_cache rc)) \<ge> rc_maxSize rc")
      case full: True
      with cap have ne: "rc_cache rc \<noteq> []" by auto
      from rc_evictLRU_full[OF wf ne] obtain k e where
        mem: "(k, e) \<in> set (rc_cache rc)"
        and ev: "rc_evictLRU rc = rc\<lparr>rc_cache := AList.delete k (rc_cache rc)\<rparr>" by blast
      from wf have d: "distinct (map fst (rc_cache rc))" by (simp add: rc_wf_def)
      have "rc_cache (rc_Set L rc req response now) = AList.update key new (AList.delete k (rc_cache rc))"
        using False full ev by (simp add: rc_Set_def Let_def key_def new_def)
      moreover have "length (AList.update key new (AList.delete k (rc_cache rc)))
            \<le> Suc (length (AList.delete k (rc_cache rc)))" by (rule length_update_le)
      moreover have "Suc (length (AList.delete k (rc_cache rc))) = length (rc_cache rc)"
        by (rule delete_distinct_length[OF d mem])
      ultimately show ?thesis using le by simp
    next
      case notfull: False
      have "rc_cache (rc_Set L rc req response now) = AList.update key new (rc_cache rc)"
        using False notfull by (simp add: rc_Set_def Let_def key_def new_def)
      moreover have "length (AList.update key new (rc_cache rc)) \<le> Suc (length (rc_cache rc))"
        by (rule length_update_le)
      ultimately show ?thesis using notfull by simp
    qed
  qed
next
  show "rc_maxSize (rc_Set L rc req response now) = rc_maxSize rc"
    by (auto simp: rc_Set_def Let_def rc_evictLRU_def split: prod.splits)
qed

lemma rc_three_wf: "rc_wf rc_three"
  by (simp add: rc_wf_def rc_three_def)

lemma rc_three_Set:
  "rc_cache (rc_Set plain_libs rc_three req_ping (Some ''pong'') 9)
   = [(''k1'', \<lparr>ce_Response = Some ''r1'', ce_CreatedAt = 1, ce_AccessCount = 3\<rparr>),
      (''k2'', \<lparr>ce_Response = Some ''r2'', ce_CreatedAt = 7, ce_AccessCount = 1\<rparr>),
      (''#K;m1;<user|s:ping>;100'', \<lparr>ce_Response = Some ''pong'', ce_CreatedAt = 9, ce_AccessCount = 1\<rparr>)]"
  by code_simp

theorem C3_Set_at_capacity_witness:
  "rc_wf rc_three \<and> 0 < rc_maxSize rc_three \<and>
   int (length (rc_cache rc_three)) = rc_maxSize rc_three \<and>
   (\<exists>k e. (k, e) \<in> set (rc_cache rc_three) \<and>
          list_all (\<lambda>kv. evicts_before e (snd kv)) (rc_cache rc_three) \<and>
          rc_cache (rc_Set plain_libs rc_three req_ping (Some ''pong'') 9)
            = AList.delete k (rc_cache rc_three)
              @ [(rc_generateCacheKey plain_libs req_ping,
                  \<lparr>ce_Response = Some ''pong'', ce_CreatedAt = 9, ce_AccessCount = 1\<rparr>)] \<and>
          set (AList.delete k (rc_cache rc_three)) = set (rc_cache rc_three) - {(k, e)} \<and>
          length (rc_cache (rc_Set plain_libs rc_three req_ping (Some ''pong'') 9))
            = length (rc_cache rc_three)) \<and>
   map fst (rc_cache (rc_Set plain_libs rc_three req_ping (Some ''pong'') 9))
     = [''k1'', ''k2'', ''#K;m1;<user|s:ping>;100'']"
proof -
  have key: "rc_generateCacheKey plain_libs req_ping = ''#K;m1;<user|s:ping>;100''"
    by code_simp
  have cap: "0 < rc_maxSize rc_three" by (simp add: rc_three_def)
  have full: "int (length (rc_cache rc_three)) = rc_maxSize rc_three"
    by (simp add: rc_three_def)
  have h: "rc_generateCacheKey plain_libs req_ping \<noteq> [] \<and>
           rc_generateCacheKey plain_libs req_ping \<notin> fst ` set (rc_cache rc_three) \<and>
           int (length (rc_cache rc_three)) = rc_maxSize rc_three"
    unfolding key by (simp add: rc_three_def)
  from C3_Set_at_capacity[OF rc_three_wf cap, of plain_libs req_ping "Some ''pong''" 9] h
  have "\<exists>k e. (k, e) \<in> set (rc_cache rc_three) \<and>
          list_all (\<lambda>kv. evicts_before e (snd kv)) (rc_cache rc_three) \<and>
          rc_cache (rc_Set plain_libs rc_three req_ping (Some ''pong'') 9)
            = AList.delete k (rc_cache rc_three)
              @ [(rc_generateCacheKey plain_libs req_ping,
                  \<lparr>ce_Response = Some ''pong'', ce_CreatedAt = 9, ce_AccessCount = 1\<rparr>)] \<and>
          set (AList.delete k (rc_cache rc_three)) = set (rc_cache rc_three) - {(k, e)} \<and>
          length (rc_cache (rc_Set plain_libs rc_three req_ping (Some ''pong'') 9))
            = length (rc_cache rc_three)"
    by blast
  moreover have "map fst (rc_cache (rc_Set plain_libs rc_three req_ping (Some ''pong'') 9))
     = [''k1'', ''k2'', ''#K;m1;<user|s:ping>;100'']"
    by (simp add: rc_three_Set)
  ultimately show ?thesis using rc_three_wf cap full by blast
qed

lemma rc_Set_ttl: "rc_ttl (rc_Set L rc req response now) = rc_ttl rc"
  by (auto simp: rc_Set_def Let_def rc_evictLRU_def split: prod.splits)

lemma rc_Set_lookup:
  assumes "rc_generateCacheKey L req \<noteq> []"
  shows "map_of (rc_cache (rc_Set L rc req response now)) (rc_generateCacheKey L req)
         = Some \<lparr>ce_Response = response, ce_CreatedAt = now, ce_AccessCount = 1\<rparr>"
proof -
  from assms have "\<not> Stream req" by (auto simp: rc_generateCacheKey_def)
  with assms show ?thesis
    by (simp add: rc_Set_def Let_def AList.update_conv')
qed

lemma pc_learnPattern_cache: "pc_learnPattern L pc req now = Some pc' \<Longrightarrow> pc_cache pc' = pc_cache pc"
  by (auto simp: pc_learnPattern_def Let_def split: option.splits)

lemma pc_Set_lookup:
  assumes "pc_Set L pc req response now = Some pc'"
  shows "map_of (pc_cache pc') (pc_generateKey L req)
         = Some \<lparr>pe_Response = response, pe_CreatedAt = now, pe_AccessCount = 1,
                 pe_LastAccess = now, pe_Confidence = 1, pe_IsPrefetch = False\<rparr>"
  using assms pc_learnPattern_cache[of L _ req now pc']
  by (auto simp: pc_Set_def Let_def AList.update_conv')

text \<open>
  C10: the keys of the response cache and of the predictive cache are functions of the
  model, the messages and max-tokens only. Two non-streaming requests that agree on these
  fields have the same keys, whatever their system prompt, tools, temperature and metadata;
  so a \<open>Get\<close> for one returns the response stored under the other.
\<close>

theorem C10_keys_from_three_fields:
  assumes "Model r1 = Model r2" "Messages r1 = Messages r2" "MaxTokens r1 = MaxTokens r2"
    and "\<not> Stream r1" "\<not> Stream r2"
  shows "rc_generateCacheKey L r1 = rc_generateCacheKey L r2
       \<and> pc_generateKey L r1 = pc_generateKey L r2
       \<and> (rc_generateCacheKey L r1 \<noteq> [] \<and> now' - now \<le> rc_ttl rc
          \<longrightarrow> fst (rc_Get L (rc_Set L rc r1 response now) r2 now') = (response, True))
       \<and> (now' - now \<le> 10 * Minute
          \<longrightarrow> (\<forall>pc'. pc_Set L pc r1 response now = Some pc'
                \<longrightarrow> (\<exists>pc''. pc_Get L pc' r2 now' = Some ((response, True, 1), pc''))))"
proof (intro conjI impI allI)
  show k1: "rc_generateCacheKey L r1 = rc_generateCacheKey L r2"
    using assms by (simp add: rc_generateCacheKey_def)
  show k2: "pc_generateKey L r1 = pc_generateKey L r2"
    using assms by (simp add: pc_generateKey_def)
  {
    assume h: "rc_generateCacheKey L r1 \<noteq> [] \<and> now' - now \<le> rc_ttl rc"
    then have ne: "rc_generateCacheKey L r2 \<noteq> []" using k1 by simp
    have "map_of (rc_cache (rc_Set L rc r1 response now)) (rc_generateCacheKey L r2)
         = Some \<lparr>ce_Response = response, ce_CreatedAt = now, ce_AccessCount = 1\<rparr>"
      using rc_Set_lookup[of L r1 rc response now] h k1 by simp
    then show "fst (rc_Get L (rc_Set L rc r1 response now) r2 now') = (response, True)"
      using h ne assms(5) by (simp add: rc_Get_def Let_def rc_Set_ttl)
  }
  {
    fix pc'
    assume t: "now' - now \<le> 10 * Minute" and s: "pc_Set L pc r1 response now = Some pc'"
    have "map_of (pc_cache pc') (pc_generateKey L r2)
         = Some \<lparr>pe_Response = response, pe_CreatedAt = now, pe_AccessCount = 1,
                 pe_LastAccess = now, pe_Confidence = 1, pe_IsPrefetch = False\<rparr>"
      using pc_Set_lookup[OF s] k2 by simp
    then show "\<exists>pc''. pc_Get L pc' r2 now' = Some ((response, True, 1), pc'')"
      using t by (simp add: pc_Get_def Let_def pc_isExpired_def)
  }
qed



theorem C10_keys_from_three_fields_witness:
  "System req_ping \<noteq> System req_ping_sys
   \<and> rc_generateCacheKey plain_libs req_ping = rc_generateCacheKey plain_libs req_ping_sys
   \<and> pc_generateKey plain_libs req_ping = pc_generateKey plain_libs req_ping_sys
   \<and> fst (rc_Get plain_libs (rc_Set plain_libs responseCache req_ping (Some ''pong'') 5)
            req_ping_sys 6) = (Some ''pong'', True)
   \<and> (\<exists>pc' pc''. pc_Set plain_libs predictiveCache req_ping (Some ''pong'') 5 = Some pc'
         \<and> pc_Get plain_libs pc' req_ping_sys 6 = Some ((Some ''pong'', True, 1), pc''))"
proof -
  have a: "Model req_ping = Model req_ping_sys" "Messages req_ping = Messages req_ping_sys"
    "MaxTokens req_ping = MaxTokens req_ping_sys" "\<not> Stream req_ping" "\<not> Stream req_ping_sys"
    by (simp_all add: req_ping_sys_def req_ping_def)
  have key: "rc_generateCacheKey plain_libs req_ping \<noteq> []" by code_simp
  have t1: "(6::int) - 5 \<le> rc_ttl responseCache"
    by (simp add: responseCache_def Minute_def Second_def)
  have t2: "(6::int) - 5 \<le> 10 * Minute" by (simp add: Minute_def Second_def)
  have "pc_Set plain_libs predictiveCache req_ping (Some ''pong'') 5 \<noteq> None" by code_simp
  then obtain pc' where s: "pc_Set plain_libs predictiveCache req_ping (Some ''pong'') 5 = Some pc'"
    by auto
  note inst = C10_keys_from_three_fields[OF a, of plain_libs 6 5 responseCache "Some ''pong''" predictiveCache]
  from inst key t1 have g1: "fst (rc_Get plain_libs (rc_Set plain_libs responseCache req_ping (Some ''pong'') 5)
            req_ping_sys 6) = (Some ''pong'', True)" by blast
  from inst t2 s obtain pc'' where
    g2: "pc_Get plain_libs pc' req_ping_sys 6 = Some ((Some ''pong'', True, 1), pc'')" by blast
  have d: "System req_ping \<noteq> System req_ping_sys"
    by (simp add: req_ping_sys_def req_ping_def)
  from inst d g1 s g2 show ?thesis by blast
qed

section \<open>Proofs: context compressor\<close>

lemma panic_free_Cons [simp]:
  "panic_free (m # ms) \<longleftrightarrow> getMessageContent (Content m) \<noteq> None \<and> panic_free ms"
  by (simp add: panic_free_def)

lemma panic_free_Nil [simp]: "panic_free []"
  by (simp add: panic_free_def)

lemma panic_free_subset: "panic_free ms \<Longrightarrow> set ms' \<subseteq> set ms \<Longrightarrow> panic_free ms'"
  by (auto simp: panic_free_def list_all_iff)

lemma panic_free_slice: "panic_free ms \<Longrightarrow> panic_free (slice ms a b)"
  by (rule panic_free_subset[where ms = ms]) (auto simp: slice_def dest: in_set_takeD in_set_dropD)

lemma total_length_from_Some: "panic_free ms \<Longrightarrow> \<exists>n. total_length_from ms k = Some n"
  by (induction ms arbitrary: k) auto

lemma importance_of_Some:
  "getMessageContent (Content m) \<noteq> None \<Longrightarrow> \<exists>imp. importance_of L n i m = Some imp \<and> mi_Index imp = i"
  by (auto simp: importance_of_def Let_def)

lemma importance_loop_Some:
  "panic_free ms \<Longrightarrow>
   \<exists>imps. importance_loop L n i ms = Some imps \<and> map mi_Index imps = [i..<i + length ms]"
proof (induction ms arbitrary: i)
  case Nil
  then show ?case by simp
next
  case (Cons m ms)
  from Cons.prems obtain imp where imp: "importance_of L n i m = Some imp" "mi_Index imp = i"
    using importance_of_Some[of m L n i] by auto
  from Cons.prems Cons.IH[of "Suc i"] obtain imps where
    imps: "importance_loop L n (Suc i) ms = Some imps" "map mi_Index imps = [Suc i..<Suc i + length ms]"
    by auto
  from imp imps show ?case by (simp add: upt_rec)
qed

lemma select_loop_Some:
  "panic_free messages \<Longrightarrow> list_all (\<lambda>imp. mi_Index imp < length messages) imps
   \<Longrightarrow> \<exists>r. select_loop messages t imps st = Some r"
proof (induction imps arbitrary: st)
  case Nil
  then show ?case by simp
next
  case (Cons imp imps)
  obtain sel cur where st: "st = (sel, cur)" by (cases st)
  from Cons.prems have idx: "mi_Index imp < length messages" by simp
  with Cons.prems(1) obtain c where c: "getMessageContent (Content (messages ! mi_Index imp)) = Some c"
    by (auto simp: panic_free_def list_all_length)
  from Cons.prems Cons.IH show ?case
    unfolding st using idx c by (simp add: Let_def)
qed

lemma summary_scan_Some: "panic_free ms \<Longrightarrow> \<exists>r. summary_scan L ms st = Some r"
proof (induction ms arbitrary: st)
  case Nil
  then show ?case by simp
next
  case (Cons m ms)
  obtain topics n where st: "st = (topics, n)" by (cases st)
  from Cons show ?case unfolding st by (auto simp: Let_def)
qed

lemma generateSimpleSummary_Some: "panic_free ms \<Longrightarrow> \<exists>s. cc_generateSimpleSummary L ms = Some s"
  using summary_scan_Some[of ms L "([], 0)"]
  by (auto simp: cc_generateSimpleSummary_def Let_def split: prod.splits)

lemma createSummary_Some: "panic_free ms \<Longrightarrow> \<exists>s cc'. cc_createSummary L cc ms = Some (s, cc')"
  using generateSimpleSummary_Some[of ms L]
  by (auto simp: cc_createSummary_def Let_def split: option.splits)

lemma ensure_loop_Some:
  "panic_free messages \<Longrightarrow> \<exists>r. ensure_loop L messages sel idxs st = Some r"
proof (induction idxs arbitrary: st)
  case Nil
  then show ?case by (cases st) auto
next
  case (Cons i idxs)
  obtain fm li cc where st: "st = (fm, li, cc)" by (cases st) auto
  from createSummary_Some[OF panic_free_slice[OF Cons.prems], of L cc "nat (li + 1)" i]
  obtain s cc1 where s: "cc_createSummary L cc (slice messages (nat (li + 1)) i) = Some (s, cc1)"
    by blast
  show ?case unfolding st using Cons.IH[OF Cons.prems] s by simp
qed

lemma ensure_loop_mem:
  "ensure_loop L messages sel idxs (fm, li, cc) = Some (fm', li', cc') \<Longrightarrow>
   set fm \<subseteq> set fm' \<and> (\<forall>i \<in> set idxs. sel i \<longrightarrow> messages ! i \<in> set fm')"
proof (induction idxs arbitrary: fm li cc)
  case Nil
  then show ?case by simp
next
  case (Cons i idxs)
  show ?case
  proof (cases "sel i")
    case False
    with Cons.prems have "ensure_loop L messages sel idxs (fm, li, cc) = Some (fm', li', cc')"
      by simp
    from Cons.IH[OF this] False show ?thesis by auto
  next
    case True
    show ?thesis
    proof (cases "int i > li + 1")
      case F: False
      with True Cons.prems
      have "ensure_loop L messages sel idxs (fm @ [messages ! i], int i, cc) = Some (fm', li', cc')"
        by simp
      from Cons.IH[OF this] show ?thesis by auto
    next
      case T: True
      with True Cons.prems obtain s cc1 where
        s: "cc_createSummary L cc (slice messages (nat (li + 1)) i) = Some (s, cc1)"
        by (auto split: option.splits)
      with True T Cons.prems
      have "ensure_loop L messages sel idxs
              ((if s \<noteq> [] then fm @ [summary_message s] else fm) @ [messages ! i], int i, cc1)
            = Some (fm', li', cc')"
        by simp
      from Cons.IH[OF this] show ?thesis by auto
    qed
  qed
qed

lemma ensureEssentialMessages_keeps:
  assumes "cc_ensureEssentialMessages L cc messages selectedIndices = Some (out, cc')"
  shows "list_all (\<lambda>m. Role m = ''system'' \<longrightarrow> m \<in> set out) messages"
    and "length messages \<ge> 2 \<Longrightarrow> messages ! (length messages - 1) \<in> set out"
    and "length messages \<ge> 2 \<Longrightarrow> messages ! (length messages - 2) \<in> set out"
proof -
  from assms obtain li where
    loop: "ensure_loop L messages (essential_selected messages selectedIndices)
             [0..<length messages] ([], - 1, cc) = Some (out, li, cc')"
    by (auto simp: cc_ensureEssentialMessages_def split: option.splits)
  from ensure_loop_mem[OF loop]
  have mem: "\<And>i. i < length messages \<Longrightarrow> essential_selected messages selectedIndices i
             \<Longrightarrow> messages ! i \<in> set out"
    by auto
  show "list_all (\<lambda>m. Role m = ''system'' \<longrightarrow> m \<in> set out) messages"
    unfolding list_all_length
  proof (intro allI impI)
    fix n assume "n < length messages" "Role (messages ! n) = ''system''"
    then show "messages ! n \<in> set out"
      by (intro mem) (auto simp: essential_selected_def)
  qed
  show "messages ! (length messages - 1) \<in> set out" if "length messages \<ge> 2"
    using that by (intro mem) (auto simp: essential_selected_def)
  show "messages ! (length messages - 2) \<in> set out" if "length messages \<ge> 2"
    using that by (intro mem) (auto simp: essential_selected_def)
qed

lemma ensureEssentialMessages_Some:
  "panic_free messages \<Longrightarrow> \<exists>r. cc_ensureEssentialMessages L cc messages selectedIndices = Some r"
  using ensure_loop_Some[of messages L "essential_selected messages selectedIndices"
      "[0..<length messages]" "([], - 1, cc)"]
  by (auto simp: cc_ensureEssentialMessages_def split: prod.splits)

lemma performCompression_Some:
  assumes pf: "panic_free messages"
    and srt: "\<And>xs. set (sort_Slice L xs) \<subseteq> set xs"
  shows "\<exists>r. cc_performCompression L cc messages = Some r"
proof (cases "length messages \<le> 2")
  case True
  then show ?thesis by (simp add: cc_performCompression_def)
next
  case False
  from importance_loop_Some[OF pf, of L "length messages" 0] obtain imps where
    imps: "cc_calculateMessageImportance L messages = Some imps"
    and idx: "map mi_Index imps = [0..<length messages]"
    by (auto simp: cc_calculateMessageImportance_def)
  from total_length_from_Some[OF pf, of 0] obtain n where
    n: "cc_calculateTotalLength messages = Some n" by (auto simp: cc_calculateTotalLength_def)
  have "\<And>imp. imp \<in> set imps \<Longrightarrow> mi_Index imp < length messages"
  proof -
    fix imp assume "imp \<in> set imps"
    then have "mi_Index imp \<in> set (map mi_Index imps)" by simp
    then show "mi_Index imp < length messages" unfolding idx by simp
  qed
  with srt[of imps] have "list_all (\<lambda>imp. mi_Index imp < length messages) (sort_Slice L imps)"
    by (auto simp: list_all_iff)
  from select_loop_Some[OF pf this, of "float_scale L n (compressionRatio cc)" "([], 0)"]
  obtain sel where sel: "cc_selectImportantMessages messages (sort_Slice L imps)
       (float_scale L n (compressionRatio cc)) = Some sel"
    by (auto simp: cc_selectImportantMessages_def split: prod.splits)
  from ensureEssentialMessages_Some[OF pf, of L cc sel] False imps n sel show ?thesis
    by (auto simp: cc_performCompression_def Let_def)
qed

text \<open>
  C6: a compression run on more than two messages (none of which makes
  \<open>getMessageContent\<close> panic, with \<open>sort.Slice\<close> returning elements of its argument)
  returns, and every system-role message of the original list and its final two messages
  are in the compressed output, whatever their scores. The selection by score does not
  matter: \<open>ensureEssentialMessages_keeps\<close> holds for every list of selected indices.
\<close>

theorem C6_essential_messages_survive:
  assumes pf: "panic_free messages"
    and srt: "\<And>xs. set (sort_Slice L xs) \<subseteq> set xs"
    and len: "length messages > 2"
  shows "\<exists>out cc'. cc_performCompression L cc messages = Some (out, cc') \<and>
           list_all (\<lambda>m. Role m = ''system'' \<longrightarrow> m \<in> set out) messages \<and>
           messages ! (length messages - 1) \<in> set out \<and>
           messages ! (length messages - 2) \<in> set out"
proof -
  from performCompression_Some[OF pf srt, of cc] obtain out cc' where
    r: "cc_performCompression L cc messages = Some (out, cc')" by auto
  with len obtain sel where "cc_ensureEssentialMessages L cc messages sel = Some (out, cc')"
    by (auto simp: cc_performCompression_def Let_def split: option.splits)
  from ensureEssentialMessages_keeps[OF this] len r show ?thesis by auto
qed


lemma insert_by_score_set: "set (insert_by_score x xs) = insert x (set xs)"
  by (induction xs) auto

lemma stable_sort_Slice_set: "set (stable_sort_Slice xs) = set xs"
  by (induction xs) (auto simp: stable_sort_Slice_def insert_by_score_set)

lemma plain_sort_Slice: "set (sort_Slice plain_libs xs) \<subseteq> set xs"
  by (simp add: plain_libs_def stable_sort_Slice_set)

lemma talk_panic_free: "panic_free talk"
  by (simp add: talk_def getMessageContent_def)

theorem C6_essential_messages_survive_witness:
  "\<exists>out cc'. cc_performCompression plain_libs cc_small talk = Some (out, cc') \<and>
     list_all (\<lambda>m. Role m = ''system'' \<longrightarrow> m \<in> set out) talk \<and>
     talk ! (length talk - 1) \<in> set out \<and>
     talk ! (length talk - 2) \<in> set out \<and>
     talk ! 0 \<in> set out \<and> Role (talk ! 0) = ''system'' \<and> talk ! 1 \<notin> set out"
proof -
  have len: "length talk > 2" by (simp add: talk_def)
  from C6_essential_messages_survive[OF talk_panic_free plain_sort_Slice len, of cc_small]
  obtain out cc' where r: "cc_performCompression plain_libs cc_small talk = Some (out, cc')"
    and keep: "list_all (\<lambda>m. Role m = ''system'' \<longrightarrow> m \<in> set out) talk"
      "talk ! (length talk - 1) \<in> set out" "talk ! (length talk - 2) \<in> set out"
    by blast
  have sys: "Role (talk ! 0) = ''system''" by (simp add: talk_def)
  with keep(1) have k0: "talk ! 0 \<in> set out" by (simp add: talk_def)
  have "map_option (\<lambda>r. talk ! 1 \<in> set (fst r)) (cc_performCompression plain_libs cc_small talk)
        = Some False"
    by code_simp
  with r have "talk ! 1 \<notin> set out" by simp
  with r keep sys k0 show ?thesis by blast
qed


section \<open>Proofs: request deduplicator\<close>

lemma rd_publish_frame:
  "rd_publish rd p result = Some rd1 \<Longrightarrow>
   recentRequests rd1 = recentRequests rd \<and> mergeableGroups rd1 = mergeableGroups rd \<and>
   activeRequests rd1 = activeRequests rd \<and> active_heap rd1 = active_heap rd"
  by (auto simp: rd_publish_def Let_def split: if_splits option.splits)

text \<open>
  C4: when the execution of an active request completes with an error, the part of
  \<open>executeRequest\<close> that runs under the lock writes no recent record and changes no
  mergeable group; when it completes without error, it writes the recent record for the
  hash, and the group under the family signature of the request holds the response as its
  cached response. The part that publishes the response touches neither map.
\<close>

theorem C4_errors_never_cached:
  assumes p: "p < length (active_heap rd)"
  shows "(err \<noteq> None \<longrightarrow>
            (\<exists>rd'. rd_commit L rd p (response, err) now = Some rd' \<and>
                   recentRequests rd' = recentRequests rd \<and>
                   mergeableGroups rd' = mergeableGroups rd))
       \<and> (err = None \<longrightarrow>
            (\<forall>k. rd_generateMergeKey L (ar_Request (active_heap rd ! p)) = Some k \<longrightarrow>
               (\<exists>rd' g. rd_commit L rd p (response, err) now = Some rd' \<and>
                   map_of (recentRequests rd') (ar_RequestHash (active_heap rd ! p))
                     = Some \<lparr>rr_Request = ar_Request (active_heap rd ! p), rr_Response = response,
                             rr_Timestamp = now, rr_Hash = ar_RequestHash (active_heap rd ! p)\<rparr> \<and>
                   map_of (mergeableGroups rd') k = Some g \<and>
                   mg_ResponseCache g = response)))
       \<and> (\<forall>rd1. rd_publish rd p (response, err) = Some rd1 \<longrightarrow>
             recentRequests rd1 = recentRequests rd \<and> mergeableGroups rd1 = mergeableGroups rd)"
proof (intro conjI impI allI)
  assume "err \<noteq> None"
  with p show "\<exists>rd'. rd_commit L rd p (response, err) now = Some rd' \<and>
                   recentRequests rd' = recentRequests rd \<and>
                   mergeableGroups rd' = mergeableGroups rd"
    by (auto simp: rd_commit_def rd_updateMergeableGroup_def Let_def)
next
  fix k
  assume e: "err = None" and k: "rd_generateMergeKey L (ar_Request (active_heap rd ! p)) = Some k"
  define a where "a = active_heap rd ! p"
  define rd1 where "rd1 = rd\<lparr>recentRequests :=
                             AList.update (ar_RequestHash a)
                               \<lparr>rr_Request = ar_Request a, rr_Response = response,
                                rr_Timestamp = now, rr_Hash = ar_RequestHash a\<rparr>
                               (recentRequests rd)\<rparr>"
  obtain rd2 g where u: "rd_updateMergeableGroup L rd1 (ar_Request a) response None now = Some rd2"
    and g: "map_of (mergeableGroups rd2) k = Some g" "mg_ResponseCache g = response"
    and r: "recentRequests rd2 = recentRequests rd1"
    using k unfolding a_def[symmetric]
    by (cases "map_of (mergeableGroups rd1) k")
      (auto simp: rd_updateMergeableGroup_def AList.update_conv')
  have c: "rd_commit L rd p (response, err) now
           = Some (rd2\<lparr>activeRequests := AList.delete (ar_RequestHash a) (activeRequests rd2)\<rparr>)"
    using p e u by (simp add: rd_commit_def Let_def a_def[symmetric] rd1_def[symmetric])
  have "map_of (recentRequests rd2) (ar_RequestHash a)
        = Some \<lparr>rr_Request = ar_Request a, rr_Response = response,
                rr_Timestamp = now, rr_Hash = ar_RequestHash a\<rparr>"
    unfolding r by (simp add: rd1_def AList.update_conv')
  with c g show "\<exists>rd' g. rd_commit L rd p (response, err) now = Some rd' \<and>
                   map_of (recentRequests rd') (ar_RequestHash (active_heap rd ! p))
                     = Some \<lparr>rr_Request = ar_Request (active_heap rd ! p), rr_Response = response,
                             rr_Timestamp = now, rr_Hash = ar_RequestHash (active_heap rd ! p)\<rparr> \<and>
                   map_of (mergeableGroups rd') k = Some g \<and>
                   mg_ResponseCache g = response"
    unfolding a_def[symmetric] by auto
next
  fix rd1 assume "rd_publish rd p (response, err) = Some rd1"
  from rd_publish_frame[OF this]
  show "recentRequests rd1 = recentRequests rd" "mergeableGroups rd1 = mergeableGroups rd"
    by simp_all
qed

lemma rd_inflight_reached:
  "rd_ProcessRequest plain_libs requestDeduplicator req_ping 0 = Some (0, Some 0, rd_inflight)"
  by code_simp

lemma rd_done_reached:
  "rd_executeRequest plain_libs rd_inflight 0 (Some ''pong'', None) 2 = Some rd_done"
  by code_simp

theorem C4_errors_never_cached_witness:
  "(\<exists>rd'. rd_commit plain_libs rd_inflight 0 (None, Some ''API 500'') 2 = Some rd' \<and>
          recentRequests rd' = [] \<and> mergeableGroups rd' = [])
   \<and> (\<exists>rd' g. rd_commit plain_libs rd_inflight 0 (Some ''pong'', None) 2 = Some rd' \<and>
          map_of (recentRequests rd') hash_ping
            = Some \<lparr>rr_Request = req_ping, rr_Response = Some ''pong'',
                    rr_Timestamp = 2, rr_Hash = hash_ping\<rparr> \<and>
          map_of (mergeableGroups rd') ''#M;m1;1;ping'' = Some g \<and>
          mg_ResponseCache g = Some ''pong'')"
proof -
  have p: "0 < length (active_heap rd_inflight)" by (simp add: rd_inflight_def)
  have a: "active_heap rd_inflight ! 0
           = \<lparr>ar_Request = req_ping, ar_ResponseCh = 0, ar_Subscribers = [],
              ar_StartTime = 0, ar_RequestHash = hash_ping\<rparr>"
    by (simp add: rd_inflight_def)
  have k: "rd_generateMergeKey plain_libs (ar_Request (active_heap rd_inflight ! 0)) = Some ''#M;m1;1;ping''"
    unfolding a by code_simp
  have e: "recentRequests rd_inflight = []" "mergeableGroups rd_inflight = []"
    by (simp_all add: rd_inflight_def)
  from C4_errors_never_cached[OF p, of "Some ''API 500''" plain_libs None 2] e
  have 1: "\<exists>rd'. rd_commit plain_libs rd_inflight 0 (None, Some ''API 500'') 2 = Some rd' \<and>
          recentRequests rd' = [] \<and> mergeableGroups rd' = []" by simp
  from C4_errors_never_cached[OF p, of None plain_libs "Some ''pong''" 2] k
  have 2: "\<exists>rd' g. rd_commit plain_libs rd_inflight 0 (Some ''pong'', None) 2 = Some rd' \<and>
          map_of (recentRequests rd') hash_ping
            = Some \<lparr>rr_Request = req_ping, rr_Response = Some ''pong'',
                    rr_Timestamp = 2, rr_Hash = hash_ping\<rparr> \<and>
          map_of (mergeableGroups rd') ''#M;m1;1;ping'' = Some g \<and>
          mg_ResponseCache g = Some ''pong''"
    unfolding a by simp
  from 1 2 show ?thesis by blast
qed

lemma rd_tryMergeRequest_merges:
  assumes key: "rd_generateMergeKey L req = Some k"
    and grp: "map_of (mergeableGroups rd) k = Some g"
    and can: "rd_canMergeWithGroup req g = Some True"
    and window: "now - mg_LastMerged g < 5 * Minute"
  shows "rd_tryMergeRequest L rd req now =
         (let g' = g\<lparr>mg_Variations := (if length (mg_Variations g) \<ge> 10
                                         then drop 1 (mg_Variations g @ [req])
                                         else mg_Variations g @ [req]),
                      mg_MergeCount := mg_MergeCount g + 1, mg_LastMerged := now\<rparr>;
              rd' = rd\<lparr>mergeableGroups := AList.update k g' (mergeableGroups rd)\<rparr>
          in case mg_ResponseCache g of
               None \<Rightarrow> Some (None, rd')
             | Some r \<Rightarrow> Some (Some \<lparr>dr_Response = Some r, dr_Error = None,
                                     dr_FromCache = True, dr_Merged = True\<rparr>, rd'))"
proof -
  have "(length (mg_Variations g @ [req]) > 10) = (length (mg_Variations g) \<ge> 10)" by auto
  then show ?thesis
    using assms
    by (simp add: rd_tryMergeRequest_def Let_def split: option.splits)
qed

lemma rd_canMergeWithGroup_True:
  assumes model: "Model req = Model (mg_BaseRequest g)"
    and count: "absInt (int (length (Messages req)) - int (length (Messages (mg_BaseRequest g)))) \<le> 2"
    and ne: "Messages req \<noteq> []" "Messages (mg_BaseRequest g) \<noteq> []"
    and u1: "last_user_content (Messages req) = Some u1"
    and u2: "last_user_content (Messages (mg_BaseRequest g)) = Some u2"
    and sim: "rd_calculateTextSimilarity u1 u2 > 7 / 10"
  shows "rd_canMergeWithGroup req g = Some True"
  using assms by (simp add: rd_canMergeWithGroup_def rd_calculateContentSimilarity_def)

text \<open>
  C5: a request (with at least one message, as the handler requires) that has no active
  record and no fresh recent record, and for which a group exists under its family
  signature whose base request has the same model, a message count that differs by at most
  2 and a last user message of text similarity above 0.7, last merged less than 5 minutes
  ago: \<open>ProcessRequest\<close> appends it to the variations of the group (dropping the oldest
  beyond 10), increments the merge counter, and, when the group holds a cached response,
  starts no execution and returns a channel that holds that response, tagged from-cache and
  merged.
\<close>

theorem C5_group_merge:
  assumes noact: "map_of (activeRequests rd) (rd_generateRequestHash L req) = None"
    and norecent: "recent_hit rd (rd_generateRequestHash L req) now = None"
    and key: "rd_generateMergeKey L req = Some k"
    and grp: "map_of (mergeableGroups rd) k = Some g"
    and model: "Model req = Model (mg_BaseRequest g)"
    and count: "absInt (int (length (Messages req)) - int (length (Messages (mg_BaseRequest g)))) \<le> 2"
    and ne: "Messages req \<noteq> []" "Messages (mg_BaseRequest g) \<noteq> []"
    and u1: "last_user_content (Messages req) = Some u1"
    and u2: "last_user_content (Messages (mg_BaseRequest g)) = Some u2"
    and sim: "rd_calculateTextSimilarity u1 u2 > 7 / 10"
    and window: "now - mg_LastMerged g < 5 * Minute"
  shows "\<exists>ch started rd'.
           rd_ProcessRequest L rd req now = Some (ch, started, rd') \<and>
           map_of (mergeableGroups rd') k
             = Some (g\<lparr>mg_Variations := (if length (mg_Variations g) \<ge> 10
                                           then drop 1 (mg_Variations g @ [req])
                                           else mg_Variations g @ [req]),
                        mg_MergeCount := mg_MergeCount g + 1, mg_LastMerged := now\<rparr>) \<and>
           (\<forall>r. mg_ResponseCache g = Some r \<longrightarrow>
                started = None \<and> ch < length (channels rd') \<and>
                channels rd' ! ch
                  = \<lparr>ch_sent = [\<lparr>dr_Response = Some r, dr_Error = None,
                                   dr_FromCache = True, dr_Merged = True\<rparr>],
                      ch_closed = True\<rparr> \<and>
                activeRequests rd' = activeRequests rd \<and>
                active_heap rd' = active_heap rd)"
proof -
  note can = rd_canMergeWithGroup_True[OF model count ne u1 u2 sim]
  note tm = rd_tryMergeRequest_merges[OF key grp can window]
  show ?thesis
  proof (cases "mg_ResponseCache g")
    case None
    with tm noact norecent show ?thesis
      by (simp add: rd_ProcessRequest_def Let_def AList.update_conv')
  next
    case (Some r)
    with tm noact norecent show ?thesis
      by (simp add: rd_ProcessRequest_def Let_def AList.update_conv' nth_append)
  qed
qed

lemma levenshtein_rec_equal_prefix:
  "take i a = take i b \<Longrightarrow> i \<le> length a \<Longrightarrow> i \<le> length b \<Longrightarrow> levenshtein_rec a b i i = 0"
proof (induction i)
  case 0
  then show ?case by simp
next
  case (Suc i)
  from Suc.prems have "take i a = take i b"
    by (metis take_Suc_conv_app_nth Suc_le_lessD butlast_snoc)
  with Suc have z: "levenshtein_rec a b i i = 0" by simp
  from Suc.prems have "a ! i = b ! i"
    by (metis Suc_le_lessD lessI nth_take)
  with z show ?case by simp
qed

lemma levenshtein_rec_last_differs:
  "take i a = take i b \<Longrightarrow> i < length a \<Longrightarrow> i < length b \<Longrightarrow>
   levenshtein_rec a b (Suc i) (Suc i) \<le> 1"
  using levenshtein_rec_equal_prefix[of i a b] by (simp add: min_le_iff_disj)

lemma long_similarity: "rd_calculateTextSimilarity long_b long_a > 7 / 10"
proof -
  have t: "take 103 long_b = take 103 long_a" by (simp add: long_a_def long_b_def)
  have la: "length long_a = 104" "length long_b = 104" by (simp_all add: long_a_def long_b_def)
  have "levenshtein_rec long_b long_a (Suc 103) (Suc 103) \<le> 1"
    by (rule levenshtein_rec_last_differs[OF t]) (simp_all add: la)
  then have d: "editDistance_spec long_b long_a \<le> 1"
    by (simp add: editDistance_spec_def levenshtein_def la)
  have ne: "long_b \<noteq> []" "long_a \<noteq> []" by (simp_all add: long_a_def long_b_def)
  have "rd_calculateTextSimilarity long_b long_a = textSimilarity_spec long_b long_a"
    by (rule textSimilarity_both_nonempty[OF ne])
  also have "\<dots> = 1 - of_nat (editDistance_spec long_b long_a) / 104"
    by (simp add: textSimilarity_spec_def la)
  also have "\<dots> \<ge> 1 - 1 / 104"
  proof -
    have "(of_nat (editDistance_spec long_b long_a) :: rat) \<le> 1" using d by simp
    then show ?thesis by (simp add: divide_right_mono)
  qed
  finally show ?thesis by simp
qed

lemma rd_long_done_reached:
  "(case rd_ProcessRequest plain_libs requestDeduplicator req_long_a 0 of
      Some (ch, Some p, rd1) \<Rightarrow> rd_executeRequest plain_libs rd1 p (Some ''pong'', None) 2
    | _ \<Rightarrow> None) = Some rd_long_done"
  by code_simp

lemma window_long: "(3::int) - mg_LastMerged group_long < 5 * Minute"
  by (simp add: group_long_def Minute_def Second_def)

lemma ProcessRequest_started_request:
  assumes "rd_ProcessRequest L rd req now = Some (ch, Some p, rd')"
  shows "p < length (active_heap rd') \<and> ar_Request (active_heap rd' ! p) = req \<and>
         ar_RequestHash (active_heap rd' ! p) = rd_generateRequestHash L req \<and>
         ar_ResponseCh (active_heap rd' ! p) = ch \<and>
         (\<exists>k. rd_generateMergeKey L req = Some k)"
  using assms
  by (auto simp: rd_ProcessRequest_def Let_def rd_tryMergeRequest_def
      split: option.splits if_splits prod.splits)

theorem C5_group_merge_witness:
  "\<exists>ch rd'.
     rd_ProcessRequest plain_libs rd_long_done req_long_b 3 = Some (ch, None, rd') \<and>
     map_of (mergeableGroups rd') key_long
       = Some (group_long\<lparr>mg_Variations := [req_long_a, req_long_b], mg_MergeCount := 2,
                          mg_LastMerged := 3\<rparr>) \<and>
     channels rd' ! ch
       = \<lparr>ch_sent = [\<lparr>dr_Response = Some ''pong'', dr_Error = None,
                        dr_FromCache = True, dr_Merged = True\<rparr>],
           ch_closed = True\<rparr> \<and>
     activeRequests rd' = [] \<and>
     long_b \<noteq> long_a"
proof -
  have noact: "map_of (activeRequests rd_long_done) (rd_generateRequestHash plain_libs req_long_b) = None"
    by (simp add: rd_long_done_def)
  have norecent: "recent_hit rd_long_done (rd_generateRequestHash plain_libs req_long_b) 3 = None"
    by code_simp
  have key: "rd_generateMergeKey plain_libs req_long_b = Some key_long" by code_simp
  have grp: "map_of (mergeableGroups rd_long_done) key_long = Some group_long"
    by (simp add: rd_long_done_def)
  have b: "mg_BaseRequest group_long = req_long_a" by (simp add: group_long_def)
  have model: "Model req_long_b = Model (mg_BaseRequest group_long)"
    unfolding b by (simp add: req_long_a_def req_long_b_def)
  have count: "absInt (int (length (Messages req_long_b))
                 - int (length (Messages (mg_BaseRequest group_long)))) \<le> 2"
    unfolding b by (simp add: req_long_a_def req_long_b_def absInt_def)
  have ne: "Messages req_long_b \<noteq> []" "Messages (mg_BaseRequest group_long) \<noteq> []"
    unfolding b by (simp_all add: req_long_a_def req_long_b_def)
  have u1: "last_user_content (Messages req_long_b) = Some long_b" by code_simp
  have u2: "last_user_content (Messages (mg_BaseRequest group_long)) = Some long_a"
    unfolding b by code_simp
  have sim: "rd_calculateTextSimilarity long_b long_a > 7 / 10"
    by (rule long_similarity)
  have vs: "mg_Variations group_long = [req_long_a]" "mg_MergeCount group_long = 1"
    "mg_ResponseCache group_long = Some ''pong''"
    by (simp_all add: group_long_def)
  have ar: "activeRequests rd_long_done = []" by (simp add: rd_long_done_def)
  have diff: "long_b \<noteq> long_a" by (simp add: long_a_def long_b_def)
  from C5_group_merge[OF noact norecent key grp model count ne u1 u2 sim window_long]
  show ?thesis unfolding vs ar using diff by auto
qed

lemma ProcessRequest_joins_active:
  assumes "map_of (activeRequests rd) (rd_generateRequestHash L req) = Some p"
    and "p < length (active_heap rd)"
  shows "rd_ProcessRequest L rd req now =
         Some (length (channels rd), None,
               rd\<lparr>channels := channels rd @ [new_chan],
                  active_heap :=
                    (active_heap rd)
                      [p := (active_heap rd ! p)
                              \<lparr>ar_Subscribers :=
                                 ar_Subscribers (active_heap rd ! p) @ [length (channels rd)]\<rparr>]\<rparr>)"
  using assms by (simp add: rd_ProcessRequest_def Let_def)

lemma ProcessRequest_starts_only_without_active:
  assumes "rd_ProcessRequest L rd req now = Some (ch, Some p, rd')"
  shows "map_of (activeRequests rd) (rd_generateRequestHash L req) = None \<and>
         map_of (activeRequests rd') (rd_generateRequestHash L req) = Some p"
  using assms
  by (auto simp: rd_ProcessRequest_def Let_def AList.update_conv'
      split: option.splits if_splits prod.splits)

lemma send_close_all_other:
  "send_close_all chans cs v = Some chans' \<Longrightarrow> c \<notin> set cs \<Longrightarrow>
   length chans' = length chans \<and> (c < length chans \<longrightarrow> chans' ! c = chans ! c)"
proof (induction cs arbitrary: chans)
  case Nil
  then show ?case by simp
next
  case (Cons x xs)
  from Cons.prems(1) obtain mid where m: "send_close chans x v = Some mid"
    and r: "send_close_all mid xs v = Some chans'"
    by (auto split: option.splits)
  from m have "length mid = length chans" "c \<noteq> x \<Longrightarrow> c < length chans \<Longrightarrow> mid ! c = chans ! c"
    by (auto simp: send_close_def split: if_splits)
  with Cons.IH[OF r] Cons.prems(2) show ?case by auto
qed

lemma send_close_all_delivers:
  "send_close_all chans cs v = Some chans' \<Longrightarrow> c \<in> set cs \<Longrightarrow>
   c < length chans \<and> chans' ! c = \<lparr>ch_sent = ch_sent (chans ! c) @ [v], ch_closed = True\<rparr>"
proof (induction cs arbitrary: chans)
  case Nil
  then show ?case by simp
next
  case (Cons x xs)
  from Cons.prems(1) obtain mid where m: "send_close chans x v = Some mid"
    and r: "send_close_all mid xs v = Some chans'"
    by (auto split: option.splits)
  from m have x: "x < length chans" "\<not> ch_closed (chans ! x)"
    and mid: "mid = chans[x := \<lparr>ch_sent = ch_sent (chans ! x) @ [v], ch_closed = True\<rparr>]"
    by (auto simp: send_close_def split: if_splits)
  show ?case
  proof (cases "c \<in> set xs")
    case True
    from Cons.IH[OF r True] have c: "c < length mid"
      and d: "chans' ! c = \<lparr>ch_sent = ch_sent (mid ! c) @ [v], ch_closed = True\<rparr>" by auto
    have "c \<noteq> x"
    proof
      assume "c = x"
      from r True have "\<not> ch_closed (mid ! c)"
      proof (induction xs arbitrary: mid)
        case Nil
        then show ?case by simp
      next
        case (Cons y ys)
        from Cons.prems(1) obtain mid' where m': "send_close mid y v = Some mid'"
          and r': "send_close_all mid' ys v = Some chans'"
          by (auto split: option.splits)
        show ?case
        proof (cases "c = y")
          case True
          with m' show ?thesis by (auto simp: send_close_def split: if_splits)
        next
          case False
          with Cons.prems(2) have "c \<in> set ys" by auto
          from Cons.IH[OF r' this] have "\<not> ch_closed (mid' ! c)" .
          with m' False show ?thesis by (auto simp: send_close_def split: if_splits)
        qed
      qed
      with \<open>c = x\<close> mid x show False by simp
    qed
    with c d mid show ?thesis by simp
  next
    case False
    with Cons.prems(2) have cx: "c = x" by simp
    from send_close_all_other[OF r False] have "c < length mid \<longrightarrow> chans' ! c = mid ! c" by simp
    with cx x mid show ?thesis by simp
  qed
qed

lemma publish_same_outcome:
  assumes "rd_publish rd p (response, err) = Some rd1"
    and "c = ar_ResponseCh (active_heap rd ! p) \<or> c \<in> set (ar_Subscribers (active_heap rd ! p))"
  shows "channels rd1 ! c
         = \<lparr>ch_sent = ch_sent (channels rd ! c)
                       @ [\<lparr>dr_Response = response, dr_Error = err,
                           dr_FromCache = False, dr_Merged = False\<rparr>],
            ch_closed = True\<rparr>"
proof -
  from assms(1) obtain chans where
    s: "send_close_all (channels rd)
          (ar_ResponseCh (active_heap rd ! p) # ar_Subscribers (active_heap rd ! p))
          \<lparr>dr_Response = response, dr_Error = err, dr_FromCache = False, dr_Merged = False\<rparr>
        = Some chans"
    and r: "rd1 = rd\<lparr>channels := chans\<rparr>"
    by (auto simp: rd_publish_def Let_def split: if_splits option.splits)
  from assms(2) have "c \<in> set (ar_ResponseCh (active_heap rd ! p) # ar_Subscribers (active_heap rd ! p))"
    by auto
  from send_close_all_delivers[OF s this] r show ?thesis by simp
qed

text \<open>
  C2 fails on the code. \<open>ProcessRequest\<close> for a hash with an active record registers a
  subscriber and starts nothing (\<open>ProcessRequest_joins_active\<close>), and the subscribers that
  \<open>executeRequest\<close> finds when it publishes all receive the outcome of the primary
  caller (\<open>publish_same_outcome\<close>). But it publishes before it takes the lock: a caller
  that \<open>ProcessRequest\<close> registers between the two parts is a subscriber of an execution
  that has already sent its responses. In the run below its channel (1) is still empty and
  open after the commit, and no active record is left, while the primary channel (0) holds
  the response.
\<close>

theorem C2_late_subscriber_never_answered:
  "rd_ProcessRequest plain_libs requestDeduplicator req_ping 0 = Some (0, Some 0, rd_inflight)
   \<and> rd_publish rd_inflight 0 (Some ''pong'', None) = Some rd_published
   \<and> rd_ProcessRequest plain_libs rd_published req_ping 1 = Some (1, None, rd_joined)
   \<and> ar_Subscribers (active_heap rd_joined ! 0) = [1]
   \<and> rd_commit plain_libs rd_joined 0 (Some ''pong'', None) 2 = Some rd_starved
   \<and> channels rd_starved ! 0 = \<lparr>ch_sent = [pong_response], ch_closed = True\<rparr>
   \<and> channels rd_starved ! 1 = \<lparr>ch_sent = [], ch_closed = False\<rparr>
   \<and> activeRequests rd_starved = []"
proof (intro conjI)
  show "rd_ProcessRequest plain_libs requestDeduplicator req_ping 0 = Some (0, Some 0, rd_inflight)"
    by code_simp
  show "rd_publish rd_inflight 0 (Some ''pong'', None) = Some rd_published"
    by code_simp
  show "rd_ProcessRequest plain_libs rd_published req_ping 1 = Some (1, None, rd_joined)"
    by code_simp
  show "ar_Subscribers (active_heap rd_joined ! 0) = [1]"
    by (simp add: rd_joined_def)
  show "rd_commit plain_libs rd_joined 0 (Some ''pong'', None) 2 = Some rd_starved"
    by code_simp
  show "channels rd_starved ! 0 = \<lparr>ch_sent = [pong_response], ch_closed = True\<rparr>"
    by (simp add: rd_starved_def)
  show "channels rd_starved ! 1 = \<lparr>ch_sent = [], ch_closed = False\<rparr>"
    by (simp add: rd_starved_def)
  show "activeRequests rd_starved = []"
    by (simp add: rd_starved_def rd_done_def)
qed

section \<open>Proofs: predictive cache\<close>

lemma pc_find_loop_nothing:
  "pc_find_loop L threshold req now entries best = Some best"
  by (induction entries arbitrary: best) (auto simp: pc_parseKeyToRequest_def)

lemma pc_Get_fuzzy_miss: "pc_Get_fuzzy L pc req now = Some ((None, False, 0), pc)"
  by (simp add: pc_Get_fuzzy_def pc_findSimilarRequest_def pc_find_loop_nothing)

lemma pc_Get_without_exact_match:
  assumes "case map_of (pc_cache pc) (pc_generateKey L req) of
             None \<Rightarrow> True | Some entry \<Rightarrow> pc_isExpired entry now"
  shows "pc_Get L pc req now = Some ((None, False, 0), pc)"
  using assms by (auto simp: pc_Get_def Let_def pc_Get_fuzzy_miss split: option.splits)



text \<open>
  C1 fails on the code. \<open>parseKeyToRequest\<close> returns nil for every key, so
  \<open>findSimilarRequest\<close> skips every entry and \<open>Get\<close> misses whenever the exact key has no
  live entry (\<open>pc_Get_without_exact_match\<close>). Below, the cache holds a live entry for
  \<open>req_ping\<close>; \<open>req_ping200\<close> differs from it in max-tokens only, its similarity to
  \<open>req_ping\<close> is 1, above the threshold, and \<open>Get\<close> returns a miss.
\<close>

theorem C1_similar_request_misses:
  "pc_Set plain_libs predictiveCache req_ping (Some ''pong'') 5 = Some pc_with_ping
   \<and> pc_calculateSimilarity plain_libs req_ping200 req_ping = Some 1
   \<and> 1 \<ge> pc_similarityThreshold pc_with_ping
   \<and> pc_isExpired (snd (pc_cache pc_with_ping ! 0)) 6 = False
   \<and> pc_Get plain_libs pc_with_ping req_ping200 6 = Some ((None, False, 0), pc_with_ping)"
proof (intro conjI)
  show "pc_Set plain_libs predictiveCache req_ping (Some ''pong'') 5 = Some pc_with_ping"
    by code_simp
  show "pc_calculateSimilarity plain_libs req_ping200 req_ping = Some 1"
    by code_simp
  show "1 \<ge> pc_similarityThreshold pc_with_ping"
    by (simp add: pc_with_ping_def predictiveCache_def)
  show "pc_isExpired (snd (pc_cache pc_with_ping ! 0)) 6 = False"
    by code_simp
  show "pc_Get plain_libs pc_with_ping req_ping200 6 = Some ((None, False, 0), pc_with_ping)"
    by code_simp
qed

section \<open>Proofs: the summary of an excluded run\<close>

































end
